theory Spec2Isabelle
  imports Main "HOL-Library.Char_ord" "HOL-Library.List_Lexorder" "HOL-Library.Monad_Syntax"
    "HOL-Library.Sublist" "HOL-Library.Multiset"
begin

text \<open>
  A shallow embedding of \<^verbatim>\<open>src/practice/content_moderation_system.cpp\<close>: the AVL tree of
  banned words, the trust graph, the KMP pattern matcher, the scoring of a post in the loop
  of \<open>main\<close>, and the review queue. Console output is not modelled.

  Conventions. A fault of the C++ program (a null pointer dereferenced, an index out of
  range) is the value \<open>None\<close>; a function that can fault, or whose loop is not evidently
  terminating, returns an \<open>option\<close>. The C++ \<open>int\<close>s of the program (heights, indices,
  lengths, severities) are modelled as unbounded: they are bounded by the length of a
  string, the depth of a tree or the number of words and phrases, and stay below
  \<open>2^31\<close> for any input shorter than two gigabytes.
\<close>

section \<open>Balanced dictionary: the AVL tree of banned words\<close>

text \<open>
  \<^verbatim>\<open>struct AVLNode { string key; AVLNode* left; AVLNode* right; int height; }\<close>.
  A pointer to a node is either null or an owned node, so the tree is a datatype whose
  fields come in the order of the struct. Keys are \<open>std::string\<close>s, compared by
  \<open>operator<\<close>: lexicographically, byte by byte as unsigned values, which is the order
  of \<open>char list\<close> given by the two library theories imported above. The stored height
  is a C++ \<open>int\<close>; it is bounded by the depth of the tree, so it is modelled as \<open>int\<close>.
\<close>

datatype AVLNode = Null | Node (key: string) (left: AVLNode) (right: AVLNode) (height: int)

fun getHeight :: "AVLNode \<Rightarrow> int" where
  "getHeight Null = 0"
| "getHeight (Node k l r h) = h"

fun getBalance :: "AVLNode \<Rightarrow> int" where
  "getBalance Null = 0"
| "getBalance (Node k l r h) = getHeight l - getHeight r"

text \<open>
  The rotations dereference \<open>y->left\<close> (resp. \<open>x->right\<close>) without a null check.
  A null dereference is a fault of the program, written here as \<open>None\<close>.
\<close>

fun rightRotate :: "AVLNode \<Rightarrow> AVLNode option" where
  "rightRotate Null = None"
| "rightRotate (Node yk Null yr yh) = None"
| "rightRotate (Node yk (Node xk xl T2 xh) yr yh) =
     (let y = Node yk T2 yr (max (getHeight T2) (getHeight yr) + 1);
          x = Node xk xl y (max (getHeight xl) (getHeight y) + 1)
      in Some x)"

fun leftRotate :: "AVLNode \<Rightarrow> AVLNode option" where
  "leftRotate Null = None"
| "leftRotate (Node xk xl Null xh) = None"
| "leftRotate (Node xk xl (Node yk T2 yr yh) xh) =
     (let x = Node xk xl T2 (max (getHeight xl) (getHeight T2) + 1);
          y = Node yk x yr (max (getHeight x) (getHeight yr) + 1)
      in Some y)"

text \<open>
  Steps 2 to 4 of \<open>insertAVL\<close>, run on the node after the recursive call has replaced
  one of its children: the height is recomputed, then the four cases are tried in the
  order of the source. \<open>node->left->key\<close> is read only when \<open>balance > 1\<close> (the
  \<open>&&\<close> short-circuits), and faults when \<open>node->left\<close> is null.
\<close>

definition childKey :: "AVLNode \<Rightarrow> string option" where
  "childKey c = (case c of Null \<Rightarrow> None | Node ck cl cr ch \<Rightarrow> Some ck)"

definition rebalance :: "AVLNode \<Rightarrow> string \<Rightarrow> AVLNode option" where
  "rebalance n0 k =
     (case n0 of
        Null \<Rightarrow> None
      | Node nk l r h0 \<Rightarrow>
          (let h = 1 + max (getHeight l) (getHeight r);
               node = Node nk l r h;
               balance = getBalance node
           in do {
             ll \<leftarrow> (if balance > 1 then do { lk \<leftarrow> childKey l; Some (k < lk) } else Some False);
             if ll then rightRotate node
             else do {
               rr \<leftarrow> (if balance < -1 then do { rk \<leftarrow> childKey r; Some (k > rk) } else Some False);
               if rr then leftRotate node
               else do {
                 lr \<leftarrow> (if balance > 1 then do { lk \<leftarrow> childKey l; Some (k > lk) } else Some False);
                 if lr then do { l' \<leftarrow> leftRotate l; rightRotate (Node nk l' r h) }
                 else do {
                   rl \<leftarrow> (if balance < -1 then do { rk \<leftarrow> childKey r; Some (k < rk) } else Some False);
                   if rl then do { r' \<leftarrow> rightRotate r; leftRotate (Node nk l r' h) }
                   else Some node } } } }))"

fun insertAVL :: "AVLNode \<Rightarrow> string \<Rightarrow> AVLNode option" where
  "insertAVL Null k = Some (Node k Null Null 1)"
| "insertAVL (Node nk l r h) k =
     (if k < nk then
        do { l' \<leftarrow> insertAVL l k; rebalance (Node nk l' r h) k }
      else if k > nk then
        do { r' \<leftarrow> insertAVL r k; rebalance (Node nk l r' h) k }
      else Some (Node nk l r h))"

fun searchAVL :: "AVLNode \<Rightarrow> string \<Rightarrow> bool" where
  "searchAVL Null k = False"
| "searchAVL (Node nk l r h) k =
     (if k = nk then True
      else if k < nk then searchAVL l k else searchAVL r k)"

text \<open>
  The driver's loop \<open>for (word : words) bannedWords = insertAVL(bannedWords, word)\<close>,
  started on the null pointer.
\<close>

fun insertAll :: "AVLNode \<Rightarrow> string list \<Rightarrow> AVLNode option" where
  "insertAll t [] = Some t"
| "insertAll t (w # ws) = do { t' \<leftarrow> insertAVL t w; insertAll t' ws }"

definition buildDictionary :: "string list \<Rightarrow> AVLNode option" where
  "buildDictionary ws = insertAll Null ws"

subsection \<open>What is observed of a tree\<close>

fun inorder :: "AVLNode \<Rightarrow> string list" where
  "inorder Null = []"
| "inorder (Node k l r h) = inorder l @ k # inorder r"

text \<open>The height of a subtree as a tree (the number of nodes on its longest path).\<close>

fun treeHeight :: "AVLNode \<Rightarrow> int" where
  "treeHeight Null = 0"
| "treeHeight (Node k l r h) = 1 + max (treeHeight l) (treeHeight r)"

fun balanced :: "AVLNode \<Rightarrow> bool" where
  "balanced Null = True"
| "balanced (Node k l r h) =
     (balanced l \<and> balanced r \<and> \<bar>treeHeight l - treeHeight r\<bar> \<le> 1)"

fun heightsStored :: "AVLNode \<Rightarrow> bool" where
  "heightsStored Null = True"
| "heightsStored (Node k l r h) =
     (heightsStored l \<and> heightsStored r \<and> h = 1 + max (getHeight l) (getHeight r))"

section \<open>Trust graph\<close>

text \<open>
  \<^verbatim>\<open>class Graph { map<string, vector<string>> adj; ... }\<close>. \<open>adj[u]\<close> is
  \<open>std::map::operator[]\<close>: when \<open>u\<close> has no entry it first inserts an empty vector for
  \<open>u\<close>, so reading through it changes the map. \<open>mapIndex\<close> returns the vector found
  and the map after the access.
\<close>

record Graph =
  adj :: "string \<rightharpoonup> string list"

definition mapIndex :: "(string \<rightharpoonup> string list) \<Rightarrow> string \<Rightarrow> string list \<times> (string \<rightharpoonup> string list)" where
  "mapIndex m u = (case m u of None \<Rightarrow> ([], m(u \<mapsto> [])) | Some xs \<Rightarrow> (xs, m))"

definition addEdge :: "Graph \<Rightarrow> string \<Rightarrow> string \<Rightarrow> Graph" where
  "addEdge g u v =
     (let (us, m1) = mapIndex (adj g) u;
          m2 = m1(u \<mapsto> us @ [v]);
          (vs, m3) = mapIndex m2 v;
          m4 = m3(v \<mapsto> vs @ [u])
      in g\<lparr>adj := m4\<rparr>)"

text \<open>
  \<open>degree\<close> returns \<open>adj[u].size()\<close> converted to \<open>int\<close> (the length, for a vector of
  fewer than \<open>2^31\<close> entries) together with the graph after the access.
\<close>

definition degree :: "Graph \<Rightarrow> string \<Rightarrow> int \<times> Graph" where
  "degree g u = (let (us, m1) = mapIndex (adj g) u in (int (length us), g\<lparr>adj := m1\<rparr>))"

definition emptyGraph :: Graph where
  "emptyGraph = \<lparr>adj = Map.empty\<rparr>"

text \<open>A history of calls on a graph object, started from the empty graph.\<close>

datatype GraphCall = AddEdge string string | Degree string

fun runCall :: "Graph \<Rightarrow> GraphCall \<Rightarrow> Graph" where
  "runCall g (AddEdge u v) = addEdge g u v"
| "runCall g (Degree u) = snd (degree g u)"

definition runCalls :: "GraphCall list \<Rightarrow> Graph" where
  "runCalls cs = foldl runCall emptyGraph cs"

fun edgeUsers :: "GraphCall \<Rightarrow> string set" where
  "edgeUsers (AddEdge u v) = {u, v}"
| "edgeUsers (Degree u) = {}"

section \<open>Characters and words\<close>

text \<open>
  \<open>::tolower\<close> and the whitespace test of \<open>operator>>\<close>, in the default "C" locale:
  only the letters \<open>A\<close> to \<open>Z\<close> change, and the whitespace characters are the space and
  the codes 9 to 13. A character is a byte, as in \<open>std::string\<close>; the bytes from 128 on
  are neither letters nor whitespace and are left as they are.
\<close>

definition tolower :: "char \<Rightarrow> char" where
  "tolower c = (let n = (of_char c :: nat) in if 65 \<le> n \<and> n \<le> 90 then char_of (n + 32) else c)"

definition isspace :: "char \<Rightarrow> bool" where
  "isspace c = (let n = (of_char c :: nat) in n = 32 \<or> (9 \<le> n \<and> n \<le> 13))"

text \<open>
  \<open>while (ss >> word)\<close>: each extraction skips leading whitespace, then reads characters
  up to the next whitespace or the end of the stream; it fails, and the loop ends, when no
  character is left after the skip.
\<close>

function extractWords :: "string \<Rightarrow> string list" where
  "extractWords s =
     (let s1 = dropWhile isspace s
      in if s1 = [] then []
         else takeWhile (\<lambda>c. \<not> isspace c) s1 # extractWords (dropWhile (\<lambda>c. \<not> isspace c) s1))"
  by pat_completeness auto
termination
proof (relation "measure length")
  show "wf (measure length)" by simp
next
  fix s s1 :: string
  assume s1: "s1 = dropWhile isspace s" and ne: "s1 \<noteq> []"
  have "\<not> isspace (hd s1)" using s1 ne hd_dropWhile[of isspace s] by simp
  then have "length (dropWhile (\<lambda>c. \<not> isspace c) s1) < length s1"
    using ne by (cases s1) (auto simp: le_imp_less_Suc length_dropWhile_le)
  also have "length s1 \<le> length s" using s1 by (simp add: length_dropWhile_le)
  finally show "(dropWhile (\<lambda>c. \<not> isspace c) s1, s) \<in> measure length" by simp
qed

declare extractWords.simps [simp del]

section \<open>Pattern matcher\<close>

text \<open>
  \<open>pattern[i]\<close> on a \<open>std::string\<close> is defined for \<open>i \<le> size()\<close> (the position
  \<open>size()\<close> holds the terminating null character) and a fault beyond; \<open>lps[i]\<close> on a
  \<open>std::vector\<close> is a fault for \<open>i \<ge> size()\<close>.
\<close>

definition charAt :: "string \<Rightarrow> nat \<Rightarrow> char option" where
  "charAt s i = (if i < length s then Some (s ! i)
                 else if i = length s then Some (CHR 0x00) else None)"

definition vecAt :: "'a list \<Rightarrow> nat \<Rightarrow> 'a option" where
  "vecAt v i = (if i < length v then Some (v ! i) else None)"

definition vecSet :: "'a list \<Rightarrow> nat \<Rightarrow> 'a \<Rightarrow> 'a list option" where
  "vecSet v i x = (if i < length v then Some (v[i := x]) else None)"

text \<open>
  The \<open>while\<close> loop of \<open>computeLPS\<close>, on the state \<open>(lps, len, i)\<close>. In
  \<open>lps[i++] = ++len\<close> the entry \<open>i\<close> receives the incremented \<open>len\<close>.
\<close>

partial_function (option) computeLPS_loop :: "string \<Rightarrow> nat list \<Rightarrow> nat \<Rightarrow> nat \<Rightarrow> nat list option" where
  "computeLPS_loop pattern lps len i =
     (if i < length pattern then
        do { a \<leftarrow> charAt pattern i;
             b \<leftarrow> charAt pattern len;
             if a = b then
               do { lps' \<leftarrow> vecSet lps i (len + 1);
                    computeLPS_loop pattern lps' (len + 1) (i + 1) }
             else if len \<noteq> 0 then
               do { len' \<leftarrow> vecAt lps (len - 1);
                    computeLPS_loop pattern lps len' i }
             else
               do { lps' \<leftarrow> vecSet lps i 0;
                    computeLPS_loop pattern lps' len (i + 1) } }
      else Some lps)"

declare computeLPS_loop.simps [code]

definition computeLPS :: "string \<Rightarrow> nat list option" where
  "computeLPS pattern = computeLPS_loop pattern (replicate (length pattern) 0) 0 1"

text \<open>
  The \<open>while\<close> loop of \<open>findPatternOccurrences\<close>, on the state
  \<open>(occurrences, i, j)\<close>. One iteration runs the first \<open>if\<close> (giving \<open>i1\<close>,
  \<open>j1\<close>) and then the \<open>if / else if\<close> that follows it; \<open>text[i]\<close> in the
  \<open>else if\<close> is read only when \<open>i < n\<close>. The indices are natural numbers: the
  program subtracts 1 from \<open>len\<close> and \<open>j\<close> only when they are not 0, and \<open>j \<le> i\<close>
  whenever \<open>i - j\<close> is recorded (an invariant of the loop, \<open>findInv\<close> below).
\<close>

partial_function (option) findLoop ::
  "string \<Rightarrow> string \<Rightarrow> nat list \<Rightarrow> nat list \<Rightarrow> nat \<Rightarrow> nat \<Rightarrow> nat list option" where
  "findLoop text pattern lps occurrences i j =
     (if i < length text then
        do { a \<leftarrow> charAt pattern j;
             b \<leftarrow> charAt text i;
             let (i1, j1) = (if a = b then (i + 1, j + 1) else (i, j));
             if j1 = length pattern then
               do { j2 \<leftarrow> vecAt lps (j1 - 1);
                    findLoop text pattern lps (occurrences @ [i1 - j1]) i1 j2 }
             else if i1 < length text then
               do { a' \<leftarrow> charAt pattern j1;
                    b' \<leftarrow> charAt text i1;
                    if a' \<noteq> b' then
                      (if j1 \<noteq> 0 then
                         do { j2 \<leftarrow> vecAt lps (j1 - 1);
                              findLoop text pattern lps occurrences i1 j2 }
                       else findLoop text pattern lps occurrences (i1 + 1) j1)
                    else findLoop text pattern lps occurrences i1 j1 }
             else findLoop text pattern lps occurrences i1 j1 }
      else Some occurrences)"

declare findLoop.simps [code]

definition findPatternOccurrences :: "string \<Rightarrow> string \<Rightarrow> nat list option" where
  "findPatternOccurrences text pattern =
     (if length pattern = 0 then Some []
      else do { lps \<leftarrow> computeLPS pattern;
                findLoop text pattern lps [] 0 0 })"

definition containsPattern :: "string \<Rightarrow> string \<Rightarrow> bool option" where
  "containsPattern text pattern =
     do { occurrences \<leftarrow> findPatternOccurrences text pattern; Some (occurrences \<noteq> []) }"

section \<open>Scoring policy\<close>

record FlaggedPost =
  username :: string
  content :: string
  severity :: int
  priority :: string
  isBot :: bool
  reputation :: int

text \<open>\<open>getPriority\<close>, on the severity score.\<close>

definition getPriority :: "int \<Rightarrow> string" where
  "getPriority score =
     (if score \<ge> 6 then ''HIGH''
      else if score \<ge> 3 then ''MEDIUM''
      else ''LOW'')"

text \<open>
  The body of the \<open>for (auto& post : posts)\<close> loop of \<open>main\<close>, up to the computation of
  the severity: the loop over the words of the content, the loop over the banned phrases,
  the reputation lookup (\<open>count(user) ? userReputation[user] : 0\<close>), the bot test through
  \<open>socialGraph.degree(user)\<close>, which may add an entry to the graph, and the two penalties.
\<close>

fun wordLoop :: "AVLNode \<Rightarrow> string list \<Rightarrow> int \<Rightarrow> int" where
  "wordLoop bannedWords [] sev = sev"
| "wordLoop bannedWords (word # rest) sev =
     (let word' = map tolower word
      in wordLoop bannedWords rest (if searchAVL bannedWords word' then sev + 1 else sev))"

fun phraseLoop :: "string \<Rightarrow> string list \<Rightarrow> int \<Rightarrow> int option" where
  "phraseLoop lowerContent [] sev = Some sev"
| "phraseLoop lowerContent (phrase # rest) sev =
     do { hit \<leftarrow> containsPattern lowerContent phrase;
          phraseLoop lowerContent rest (if hit then sev + 2 else sev) }"

definition scorePost ::
  "AVLNode \<Rightarrow> string list \<Rightarrow> (string \<rightharpoonup> int) \<Rightarrow> Graph \<Rightarrow> string \<times> string
     \<Rightarrow> (int \<times> bool \<times> int \<times> Graph) option" where
  "scorePost bannedWords bannedPhrases userReputation socialGraph post =
     (let user = fst post;
          text = snd post;
          sev0 = 0;
          sev1 = wordLoop bannedWords (extractWords text) sev0;
          lowerContent = map tolower text
      in do {
        sev2 \<leftarrow> phraseLoop lowerContent bannedPhrases sev1;
        let rep = (case userReputation user of Some r \<Rightarrow> r | None \<Rightarrow> 0);
            (deg, socialGraph') = degree socialGraph user;
            botUser = (deg = 0);
            sev3 = (if botUser then sev2 + 2 else sev2);
            sev4 = (if rep < 5 then sev3 + 1 else sev3)
        in Some (sev4, botUser, rep, socialGraph') })"


section \<open>Review queue\<close>

text \<open>
  Modelled from the spec: the review queue is a \<open>std::priority_queue<pair<int, FlaggedPost>>\<close>,
  whose code (the C++ standard library) is not part of the source, and \<open>FlaggedPost\<close>
  declares no comparison that the pairs could be ordered by beyond their first component.
  The specification (section 4.5) gives its contract, \<open>push(severity, post)\<close> and \<open>pop()\<close>
  yielding the post of currently maximal severity, "backed by a binary max-heap keyed on
  severity". The model is that heap: an array in which the entry at index \<open>i\<close> has its
  parent at \<open>(i - 1) div 2\<close>; \<open>push\<close> appends and sifts up, \<open>pop\<close> moves the last entry to
  the root and sifts down, \<open>top\<close> is the root. \<open>top\<close> and \<open>pop\<close> on an empty queue are
  faults.
\<close>

type_synonym ReviewQueue = "(int \<times> FlaggedPost) list"

text \<open>
  Modelled from the spec: the sift-up of the binary max-heap behind \<open>push\<close>, which is
  part of the standard library and not of the source. The entry at \<open>i\<close> moves up while
  its severity is larger than that of its parent.
\<close>

function siftUp :: "ReviewQueue \<Rightarrow> nat \<Rightarrow> ReviewQueue" where
  "siftUp h i =
     (if i = 0 then h
      else let p = (i - 1) div 2
           in if fst (h ! p) < fst (h ! i) then siftUp (h[p := h ! i, i := h ! p]) p else h)"
  by pat_completeness auto
termination
  by (relation "measure snd") auto

declare siftUp.simps [simp del]

text \<open>
  Modelled from the spec: \<open>push(severity, post)\<close> of the review queue, which is
  \<open>std::priority_queue::push\<close> and not in the source.
\<close>

definition push :: "ReviewQueue \<Rightarrow> int \<times> FlaggedPost \<Rightarrow> ReviewQueue" where
  "push q e = siftUp (q @ [e]) (length q)"

text \<open>
  Modelled from the spec: the sift-down of the binary max-heap behind \<open>pop\<close>, not in the
  source. The entry at \<open>i\<close> is exchanged with the larger of its children while that child
  has a larger severity.
\<close>

function siftDown :: "ReviewQueue \<Rightarrow> nat \<Rightarrow> ReviewQueue" where
  "siftDown h i =
     (let l = 2 * i + 1;
          r = 2 * i + 2;
          big = (if l < length h \<and> fst (h ! i) < fst (h ! l) then l else i);
          big' = (if r < length h \<and> fst (h ! big) < fst (h ! r) then r else big)
      in if big' = i then h else siftDown (h[i := h ! big', big' := h ! i]) big')"
  by pat_completeness auto
termination
  by (relation "measure (\<lambda>(h, i). length h - i)") (auto split: if_splits)

declare siftDown.simps [simp del]

text \<open>
  Modelled from the spec: \<open>top()\<close> and \<open>pop()\<close> of the review queue
  (\<open>std::priority_queue\<close>, not in the source): the root of the heap, and its removal.
\<close>

fun top :: "ReviewQueue \<Rightarrow> (int \<times> FlaggedPost) option" where
  "top [] = None"
| "top (e # q) = Some e"

definition pop :: "ReviewQueue \<Rightarrow> ReviewQueue option" where
  "pop q = (if q = [] then None else Some (siftDown (butlast (q[0 := last q])) 0))"

text \<open>
  The report loop of \<open>main\<close>: \<open>while (!flaggedQueue.empty()) { print top; pop }\<close>,
  returning the posts in the order they are printed.
\<close>

function drain :: "ReviewQueue \<Rightarrow> FlaggedPost list option" where
  "drain q =
     (if q = [] then Some []
      else do { e \<leftarrow> top q; q' \<leftarrow> pop q; rest \<leftarrow> drain q'; Some (snd e # rest) })"
  by pat_completeness auto
termination
proof (relation "measure length")
  show "wf (measure length)" by simp
next
  fix q :: ReviewQueue and e q'
  assume "q \<noteq> []" "pop q = Some q'"
  moreover have "length (siftDown h i) = length h" for h i
    by (induction h i rule: siftDown.induct) (subst siftDown.simps, simp add: Let_def)
  ultimately show "(q', q) \<in> measure length" by (auto simp: pop_def)
qed

declare drain.simps [simp del]


text \<open>A history of calls on the queue; a \<open>pop\<close> on the empty queue is a fault.\<close>

datatype QueueCall = Push "int \<times> FlaggedPost" | Pop

fun runQueueCall :: "ReviewQueue \<Rightarrow> QueueCall \<Rightarrow> ReviewQueue option" where
  "runQueueCall q (Push e) = Some (push q e)"
| "runQueueCall q Pop = pop q"

fun runQueueCalls :: "ReviewQueue \<Rightarrow> QueueCall list \<Rightarrow> ReviewQueue option" where
  "runQueueCalls q [] = Some q"
| "runQueueCalls q (c # cs) = do { q' \<leftarrow> runQueueCall q c; runQueueCalls q' cs }"

text \<open>
  The whole body of the loop over the posts: a post is pushed, with its record, only when
  \<open>severity > 0\<close>. The state is the graph and the queue.
\<close>

definition analysePost ::
  "AVLNode \<Rightarrow> string list \<Rightarrow> (string \<rightharpoonup> int) \<Rightarrow> Graph \<times> ReviewQueue \<Rightarrow> string \<times> string
     \<Rightarrow> (Graph \<times> ReviewQueue) option" where
  "analysePost bannedWords bannedPhrases userReputation st post =
     do { (sev, botUser, rep, socialGraph') \<leftarrow>
            scorePost bannedWords bannedPhrases userReputation (fst st) post;
          if sev > 0 then
            let fp = \<lparr>username = fst post, content = snd post, severity = sev,
                      priority = getPriority sev, isBot = botUser, reputation = rep\<rparr>
            in Some (socialGraph', push (snd st) (sev, fp))
          else Some (socialGraph', snd st) }"

fun analysePosts ::
  "AVLNode \<Rightarrow> string list \<Rightarrow> (string \<rightharpoonup> int) \<Rightarrow> Graph \<times> ReviewQueue \<Rightarrow> (string \<times> string) list
     \<Rightarrow> (Graph \<times> ReviewQueue) option" where
  "analysePosts bannedWords bannedPhrases userReputation st [] = Some st"
| "analysePosts bannedWords bannedPhrases userReputation st (post # posts) =
     do { st' \<leftarrow> analysePost bannedWords bannedPhrases userReputation st post;
          analysePosts bannedWords bannedPhrases userReputation st' posts }"

text \<open>
  \<open>main\<close> with its data as parameters: build the dictionary, build the graph, analyse the
  posts in order, drain the queue.
\<close>

definition moderate ::
  "string list \<Rightarrow> (string \<rightharpoonup> int) \<Rightarrow> (string \<times> string) list \<Rightarrow> string list
     \<Rightarrow> (string \<times> string) list \<Rightarrow> FlaggedPost list option" where
  "moderate bannedWordList userReputation edges bannedPhrases posts =
     do { bannedWords \<leftarrow> buildDictionary bannedWordList;
          let socialGraph = foldl (\<lambda>g (u, v). addEdge g u v) emptyGraph edges;
          (socialGraph', flaggedQueue) \<leftarrow>
             analysePosts bannedWords bannedPhrases userReputation (socialGraph, []) posts;
          drain flaggedQueue }"

section \<open>The specification's notions\<close>

text \<open>
  Definitions that follow the words of the specification, to compare the code with:
  the whitespace-separated tokens of a text (its fields between whitespace characters,
  without the empty ones), a phrase occurring in a text (the phrase is not empty, the
  matcher being specified never to match the empty pattern, and it equals the substring of
  its length starting at some index), and the severity as the sum of section 4.4.
\<close>

fun splitFields :: "string \<Rightarrow> string list" where
  "splitFields [] = [[]]"
| "splitFields (c # cs) =
     (if isspace c then [] # splitFields cs
      else (case splitFields cs of [] \<Rightarrow> [[c]] | w # ws \<Rightarrow> (c # w) # ws))"

definition whitespaceTokens :: "string \<Rightarrow> string list" where
  "whitespaceTokens s = filter (\<lambda>w. w \<noteq> []) (splitFields s)"

definition occursIn :: "string \<Rightarrow> string \<Rightarrow> bool" where
  "occursIn phrase body =
     (phrase \<noteq> [] \<and> (\<exists>i<length body. take (length phrase) (drop i body) = phrase))"

definition severitySpec ::
  "string list \<Rightarrow> string list \<Rightarrow> (string \<rightharpoonup> int) \<Rightarrow> Graph \<Rightarrow> string \<Rightarrow> string \<Rightarrow> int" where
  "severitySpec dictionary bannedPhrases userReputation socialGraph author body =
     int (length (filter (\<lambda>tok. map tolower tok \<in> set dictionary) (whitespaceTokens body)))
     + 2 * int (length (filter (\<lambda>phrase. occursIn phrase (map tolower body)) bannedPhrases))
     + (if fst (degree socialGraph author) = 0 then 2 else 0)
     + (if (case userReputation author of None \<Rightarrow> 0 | Some r \<Rightarrow> r) < 5 then 1 else 0)"

section \<open>Invariants used in the proofs\<close>

text \<open>
  The two invariants together, over tree heights; \<open>leans\<close> and \<open>grown\<close> describe how
  one insertion may change the height of a subtree, and on which side.
\<close>

fun avlInv :: "AVLNode \<Rightarrow> bool" where
  "avlInv Null = True"
| "avlInv (Node k l r h) =
     (avlInv l \<and> avlInv r \<and> \<bar>treeHeight l - treeHeight r\<bar> \<le> 1 \<and>
      h = 1 + max (treeHeight l) (treeHeight r))"

definition leans :: "AVLNode \<Rightarrow> string \<Rightarrow> bool" where
  "leans t k = (case t of Null \<Rightarrow> False
     | Node nk l r h \<Rightarrow> (k < nk \<and> treeHeight l = treeHeight r + 1) \<or>
                        (k > nk \<and> treeHeight r = treeHeight l + 1))"

definition grown :: "AVLNode \<Rightarrow> AVLNode \<Rightarrow> string \<Rightarrow> bool" where
  "grown t t' k = (treeHeight t' = treeHeight t \<or>
     (treeHeight t' = treeHeight t + 1 \<and> (t = Null \<or> leans t' k)))"

definition dictInv :: "AVLNode \<Rightarrow> bool" where
  "dictInv t = (avlInv t \<and> sorted_wrt (<) (inorder t))"

text \<open>
  \<open>pmatch p t e k\<close>: the first \<open>k\<close> characters of \<open>p\<close> are the \<open>k\<close> characters of
  \<open>t\<close> that end just before index \<open>e\<close>. \<open>lpb p n\<close> is the length of the longest
  proper border of the first \<open>n\<close> characters of \<open>p\<close>: what \<open>lps[n - 1]\<close> must hold.
\<close>

definition pmatch :: "string \<Rightarrow> string \<Rightarrow> nat \<Rightarrow> nat \<Rightarrow> bool" where
  "pmatch p t e k = (k \<le> e \<and> e \<le> length t \<and> k \<le> length p \<and> (\<forall>x<k. p ! x = t ! (e - k + x)))"

definition lpb :: "string \<Rightarrow> nat \<Rightarrow> nat" where
  "lpb p n = Max {k. k < n \<and> pmatch p p n k}"

definition lpsInv :: "string \<Rightarrow> nat list \<Rightarrow> nat \<Rightarrow> nat \<Rightarrow> bool" where
  "lpsInv p lps len i =
     (1 \<le> i \<and> i \<le> length p \<and> length lps = length p \<and> len < i \<and>
      (\<forall>n. 1 \<le> n \<and> n \<le> i \<longrightarrow> lps ! (n - 1) = lpb p n) \<and>
      pmatch p p i len \<and>
      (\<forall>k. len < k \<and> k < i \<longrightarrow> \<not> pmatch p p (Suc i) (Suc k)))"

definition lpsCorrect :: "string \<Rightarrow> nat list \<Rightarrow> bool" where
  "lpsCorrect p lps =
     (length lps = length p \<and> (\<forall>n. 1 \<le> n \<and> n \<le> length p \<longrightarrow> lps ! (n - 1) = lpb p n))"

definition matchAt :: "string \<Rightarrow> string \<Rightarrow> nat \<Rightarrow> bool" where
  "matchAt t p s = pmatch p t (s + length p) (length p)"

definition findInv :: "string \<Rightarrow> string \<Rightarrow> nat list \<Rightarrow> nat \<Rightarrow> nat \<Rightarrow> bool" where
  "findInv t p occ i j =
     (j \<le> i \<and> i \<le> length t \<and> j < length p \<and> pmatch p t i j \<and>
      occ = filter (matchAt t p) [0..<i - j])"

text \<open>
  The heap order of the review queue: no entry has a larger severity than its parent.
  \<open>heapExceptUp h i\<close> and \<open>heapExceptDown h i\<close> are the order with one violation
  allowed, between \<open>i\<close> and its parent, resp. between \<open>i\<close> and its children, while the
  children of \<open>i\<close> are within the severity of the parent of \<open>i\<close>.
\<close>

definition heapInv :: "ReviewQueue \<Rightarrow> bool" where
  "heapInv h = (\<forall>k. 0 < k \<and> k < length h \<longrightarrow> fst (h ! k) \<le> fst (h ! ((k - 1) div 2)))"

definition heapExceptUp :: "ReviewQueue \<Rightarrow> nat \<Rightarrow> bool" where
  "heapExceptUp h i =
     ((\<forall>k. 0 < k \<and> k < length h \<and> k \<noteq> i \<longrightarrow> fst (h ! k) \<le> fst (h ! ((k - 1) div 2))) \<and>
      (\<forall>k. 0 < k \<and> k < length h \<and> (k - 1) div 2 = i \<and> 0 < i \<longrightarrow>
           fst (h ! k) \<le> fst (h ! ((i - 1) div 2))))"

definition heapExceptDown :: "ReviewQueue \<Rightarrow> nat \<Rightarrow> bool" where
  "heapExceptDown h i =
     ((\<forall>k. 0 < k \<and> k < length h \<and> (k - 1) div 2 \<noteq> i \<longrightarrow> fst (h ! k) \<le> fst (h ! ((k - 1) div 2))) \<and>
      (\<forall>k. 0 < k \<and> k < length h \<and> (k - 1) div 2 = i \<and> 0 < i \<longrightarrow>
           fst (h ! k) \<le> fst (h ! ((i - 1) div 2))))"

text \<open>
  What holds of the review queue while \<open>main\<close> runs: it is a heap, and every entry has a
  positive key, which is the severity of its post, and the priority of that severity.
\<close>

definition queueOk :: "ReviewQueue \<Rightarrow> bool" where
  "queueOk q = (heapInv q \<and>
     (\<forall>e\<in>set q. 0 < fst e \<and> severity (snd e) = fst e \<and> priority (snd e) = getPriority (fst e)))"

section \<open>The data of \<open>main\<close>\<close>

text \<open>
  The banned words, reputations, edges, phrases and posts that \<open>main\<close> is written with,
  and the tree that its four insertions build.
\<close>

definition mainWords :: "string list" where
  "mainWords = [''spam'', ''fake'', ''scam'', ''hate'']"

definition mainReputation :: "string \<rightharpoonup> int" where
  "mainReputation = [''alice'' \<mapsto> 10, ''bob'' \<mapsto> 3, ''charlie'' \<mapsto> 5]"

definition mainGraph :: Graph where
  "mainGraph = addEdge (addEdge emptyGraph ''alice'' ''bob'') ''bob'' ''charlie''"

definition mainPhrases :: "string list" where
  "mainPhrases = [''click here'', ''free money'', ''urgent action'', ''limited time'']"

definition mainPosts :: "(string \<times> string) list" where
  "mainPosts = [(''alice'', ''this is a great product''), (''bob'', ''this is a scam''),
                (''botuser'', ''check out this link''), (''charlie'', ''I hate this'')]"

definition mainTree :: AVLNode where
  "mainTree = Node ''scam'' (Node ''fake'' Null (Node ''hate'' Null Null 1) 2)
                            (Node ''spam'' Null Null 1) 3"

definition postBob :: FlaggedPost where
  "postBob = \<lparr>username = ''bob'', content = ''this is a scam'', severity = 2,
              priority = ''LOW'', isBot = False, reputation = 3\<rparr>"

definition postBotuser :: FlaggedPost where
  "postBotuser = \<lparr>username = ''botuser'', content = ''check out this link'', severity = 3,
                  priority = ''MEDIUM'', isBot = True, reputation = 0\<rparr>"

definition postCharlie :: FlaggedPost where
  "postCharlie = \<lparr>username = ''charlie'', content = ''I hate this'', severity = 1,
                  priority = ''LOW'', isBot = False, reputation = 5\<rparr>"

definition mainEdges :: "(string \<times> string) list" where
  "mainEdges = [(''alice'', ''bob''), (''bob'', ''charlie'')]"

text \<open>The score, bot flag and reputation of a scored post, without the graph.\<close>

definition scoreOnly :: "(int \<times> bool \<times> int \<times> Graph) option \<Rightarrow> (int \<times> bool \<times> int) option" where
  "scoreOnly r = map_option (\<lambda>(s, b, rep, g). (s, b, rep)) r"

section \<open>Properties of the dictionary\<close>

subsection \<open>Heights and rebalancing\<close>

lemma getHeight_treeHeight: "heightsStored t \<Longrightarrow> getHeight t = treeHeight t"
  by (induction t) auto

lemma treeHeight_nonneg: "0 \<le> treeHeight t"
  by (induction t) auto

lemma avlInv_getHeight: "avlInv t \<Longrightarrow> getHeight t = treeHeight t"
  by (cases t) auto

lemma avlInv_iff: "avlInv t = (balanced t \<and> heightsStored t)"
  by (induction t) (auto simp: getHeight_treeHeight)

lemma treeHeight_Null_iff: "(treeHeight t = 0) = (t = Null)"
proof (cases t)
  case Null
  then show ?thesis by simp
next
  case (Node k l r h)
  then show ?thesis using treeHeight_nonneg[of l] treeHeight_nonneg[of r] by simp
qed

lemma rebalance_none:
  assumes "\<bar>getHeight l - getHeight r\<bar> \<le> 1"
  shows "rebalance (Node nk l r h) k = Some (Node nk l r (1 + max (getHeight l) (getHeight r)))"
proof -
  have "\<not> getHeight l - getHeight r > 1" "\<not> getHeight l - getHeight r < -1"
    using assms by auto
  then show ?thesis by (simp add: rebalance_def Let_def)
qed

lemma rebalance_LL:
  assumes "getHeight (Node lk ll lr lh) - getHeight r > 1" "k < lk"
  shows "rebalance (Node nk (Node lk ll lr lh) r h) k =
     rightRotate (Node nk (Node lk ll lr lh) r (1 + max lh (getHeight r)))"
  using assms by (simp add: rebalance_def Let_def childKey_def)

lemma rebalance_LR:
  assumes "getHeight (Node lk ll lr lh) - getHeight r > 1" "k > lk"
  shows "rebalance (Node nk (Node lk ll lr lh) r h) k =
     do { l' \<leftarrow> leftRotate (Node lk ll lr lh); rightRotate (Node nk l' r (1 + max lh (getHeight r))) }"
proof -
  have "\<not> k < lk" using assms(2) by auto
  moreover have "\<not> lh - getHeight r < -1" using assms(1) by auto
  ultimately show ?thesis using assms
    by (simp add: rebalance_def Let_def childKey_def del: leftRotate.simps rightRotate.simps)
qed

lemma rebalance_RR:
  assumes "getHeight l - getHeight (Node rk rl rr rh) < -1" "k > rk"
  shows "rebalance (Node nk l (Node rk rl rr rh) h) k =
     leftRotate (Node nk l (Node rk rl rr rh) (1 + max (getHeight l) rh))"
proof -
  have "\<not> getHeight l - rh > 1" using assms(1) by auto
  then show ?thesis using assms
    by (simp add: rebalance_def Let_def childKey_def del: leftRotate.simps rightRotate.simps)
qed

lemma rebalance_RL:
  assumes "getHeight l - getHeight (Node rk rl rr rh) < -1" "k < rk"
  shows "rebalance (Node nk l (Node rk rl rr rh) h) k =
     do { r' \<leftarrow> rightRotate (Node rk rl rr rh); leftRotate (Node nk l r' (1 + max (getHeight l) rh)) }"
proof -
  have "\<not> getHeight l - rh > 1" using assms(1) by auto
  moreover have "\<not> k > rk" using assms(2) by auto
  ultimately show ?thesis using assms
    by (simp add: rebalance_def Let_def childKey_def del: leftRotate.simps rightRotate.simps)
qed

lemma LL_ok:
  assumes "avlInv (Node lk ll lr lh)" "avlInv r"
    "treeHeight ll = treeHeight lr + 1" "treeHeight lr = treeHeight r"
  shows "\<exists>t'. rightRotate (Node nk (Node lk ll lr lh) r h) = Some t' \<and> avlInv t' \<and>
           treeHeight t' = treeHeight r + 2"
  using assms by (simp add: avlInv_getHeight Let_def)

lemma RR_ok:
  assumes "avlInv (Node rk rl rr rh)" "avlInv l"
    "treeHeight rr = treeHeight rl + 1" "treeHeight rl = treeHeight l"
  shows "\<exists>t'. leftRotate (Node nk l (Node rk rl rr rh) h) = Some t' \<and> avlInv t' \<and>
           treeHeight t' = treeHeight l + 2"
  using assms by (simp add: avlInv_getHeight Let_def)

lemma LR_ok:
  assumes "avlInv (Node lk ll lr lh)" "avlInv r"
    "treeHeight lr = treeHeight ll + 1" "treeHeight ll = treeHeight r"
  shows "\<exists>t'. (leftRotate (Node lk ll lr lh) \<bind> (\<lambda>l'. rightRotate (Node nk l' r h))) = Some t' \<and>
           avlInv t' \<and> treeHeight t' = treeHeight r + 2"
proof (cases lr)
  case Null
  then show ?thesis using assms treeHeight_nonneg[of ll] by simp
next
  case (Node mk a b mh)
  then show ?thesis using assms by (simp add: avlInv_getHeight Let_def) linarith
qed

lemma RL_ok:
  assumes "avlInv (Node rk rl rr rh)" "avlInv l"
    "treeHeight rl = treeHeight rr + 1" "treeHeight rr = treeHeight l"
  shows "\<exists>t'. (rightRotate (Node rk rl rr rh) \<bind> (\<lambda>r'. leftRotate (Node nk l r' h))) = Some t' \<and>
           avlInv t' \<and> treeHeight t' = treeHeight l + 2"
proof (cases rl)
  case Null
  then show ?thesis using assms treeHeight_nonneg[of rr] by simp
next
  case (Node mk a b mh)
  then show ?thesis using assms by (simp add: avlInv_getHeight Let_def) linarith
qed


lemma rebalance_left:
  assumes l': "avlInv l'" and r: "avlInv r" and l: "avlInv l"
    and bal: "\<bar>treeHeight l - treeHeight r\<bar> \<le> 1" and g: "grown l l' k" and lt: "k < nk"
  shows "\<exists>t'. rebalance (Node nk l' r h) k = Some t' \<and> avlInv t' \<and> grown (Node nk l r h0) t' k"
proof (cases "treeHeight l' - treeHeight r > 1")
  case False
  have hl: "treeHeight l' = treeHeight l \<or> treeHeight l' = treeHeight l + 1"
    using g by (auto simp: grown_def)
  then have b': "\<bar>treeHeight l' - treeHeight r\<bar> \<le> 1" using False bal by auto
  then have "rebalance (Node nk l' r h) k = Some (Node nk l' r (1 + max (treeHeight l') (treeHeight r)))"
    using rebalance_none[of l' r nk h k] l' r by (simp add: avlInv_getHeight)
  moreover have "avlInv (Node nk l' r (1 + max (treeHeight l') (treeHeight r)))"
    using l' r b' by simp
  moreover have "grown (Node nk l r h0) (Node nk l' r (1 + max (treeHeight l') (treeHeight r))) k"
    using hl b' bal lt by (auto simp: grown_def leans_def)
  ultimately show ?thesis by blast
next
  case True
  have hl: "treeHeight l' = treeHeight l + 1" "treeHeight l = treeHeight r + 1"
    using g True bal by (auto simp: grown_def)
  have "l \<noteq> Null" using hl(2) treeHeight_nonneg[of r] by auto
  then have ln: "leans l' k" using g hl by (auto simp: grown_def)
  then obtain lk ll lr lh where l'eq: "l' = Node lk ll lr lh"
    by (cases l') (auto simp: leans_def)
  have old: "treeHeight (Node nk l r h0) = treeHeight r + 2" using hl by simp
  have gh: "getHeight (Node lk ll lr lh) - getHeight r > 1"
    using True l' r l'eq avlInv_getHeight[of l'] avlInv_getHeight[of r] by simp
  from ln l'eq consider
    (LL) "k < lk" "treeHeight ll = treeHeight lr + 1" |
    (LR) "k > lk" "treeHeight lr = treeHeight ll + 1"
    by (auto simp: leans_def)
  then show ?thesis
  proof cases
    case LL
    have "treeHeight lr = treeHeight r" using LL(2) hl l'eq by simp
    from LL_ok[OF l'[unfolded l'eq] r LL(2) this]
    obtain t' where "rightRotate (Node nk (Node lk ll lr lh) r (1 + max lh (getHeight r))) = Some t'"
      "avlInv t'" "treeHeight t' = treeHeight r + 2" by blast
    then show ?thesis using rebalance_LL[OF gh LL(1)] old l'eq by (auto simp: grown_def)
  next
    case LR
    have "treeHeight ll = treeHeight r" using LR(2) hl l'eq by simp
    from LR_ok[OF l'[unfolded l'eq] r LR(2) this]
    obtain t' where "(leftRotate (Node lk ll lr lh) \<bind>
        (\<lambda>l'. rightRotate (Node nk l' r (1 + max lh (getHeight r))))) = Some t'"
      "avlInv t'" "treeHeight t' = treeHeight r + 2" by blast
    then show ?thesis using rebalance_LR[OF gh LR(1)] old l'eq by (auto simp: grown_def)
  qed
qed

lemma rebalance_right:
  assumes r': "avlInv r'" and l: "avlInv l" and r: "avlInv r"
    and bal: "\<bar>treeHeight l - treeHeight r\<bar> \<le> 1" and g: "grown r r' k" and gt: "k > nk"
  shows "\<exists>t'. rebalance (Node nk l r' h) k = Some t' \<and> avlInv t' \<and> grown (Node nk l r h0) t' k"
proof (cases "treeHeight l - treeHeight r' < -1")
  case False
  have hr: "treeHeight r' = treeHeight r \<or> treeHeight r' = treeHeight r + 1"
    using g by (auto simp: grown_def)
  then have b': "\<bar>treeHeight l - treeHeight r'\<bar> \<le> 1" using False bal by auto
  then have "rebalance (Node nk l r' h) k = Some (Node nk l r' (1 + max (treeHeight l) (treeHeight r')))"
    using rebalance_none[of l r' nk h k] l r' by (simp add: avlInv_getHeight)
  moreover have "avlInv (Node nk l r' (1 + max (treeHeight l) (treeHeight r')))"
    using l r' b' by simp
  moreover have "grown (Node nk l r h0) (Node nk l r' (1 + max (treeHeight l) (treeHeight r'))) k"
    using hr b' bal gt by (auto simp: grown_def leans_def)
  ultimately show ?thesis by blast
next
  case True
  have hr: "treeHeight r' = treeHeight r + 1" "treeHeight r = treeHeight l + 1"
    using g True bal by (auto simp: grown_def)
  have "r \<noteq> Null" using hr(2) treeHeight_nonneg[of l] by auto
  then have ln: "leans r' k" using g hr by (auto simp: grown_def)
  then obtain rk rl rr rh where r'eq: "r' = Node rk rl rr rh"
    by (cases r') (auto simp: leans_def)
  have old: "treeHeight (Node nk l r h0) = treeHeight l + 2" using hr by simp
  have gh: "getHeight l - getHeight (Node rk rl rr rh) < -1"
    using True l r' r'eq avlInv_getHeight[of r'] avlInv_getHeight[of l] by simp
  from ln r'eq consider
    (RL) "k < rk" "treeHeight rl = treeHeight rr + 1" |
    (RR) "k > rk" "treeHeight rr = treeHeight rl + 1"
    by (auto simp: leans_def)
  then show ?thesis
  proof cases
    case RR
    have "treeHeight rl = treeHeight l" using RR(2) hr r'eq by simp
    from RR_ok[OF r'[unfolded r'eq] l RR(2) this]
    obtain t' where "leftRotate (Node nk l (Node rk rl rr rh) (1 + max (getHeight l) rh)) = Some t'"
      "avlInv t'" "treeHeight t' = treeHeight l + 2" by blast
    then show ?thesis using rebalance_RR[OF gh RR(1)] old r'eq by (auto simp: grown_def)
  next
    case RL
    have "treeHeight rr = treeHeight l" using RL(2) hr r'eq by simp
    from RL_ok[OF r'[unfolded r'eq] l RL(2) this]
    obtain t' where "(rightRotate (Node rk rl rr rh) \<bind>
        (\<lambda>r'. leftRotate (Node nk l r' (1 + max (getHeight l) rh)))) = Some t'"
      "avlInv t'" "treeHeight t' = treeHeight l + 2" by blast
    then show ?thesis using rebalance_RL[OF gh RL(1)] old r'eq by (auto simp: grown_def)
  qed
qed

lemma insertAVL_avlInv:
  "avlInv t \<Longrightarrow> \<exists>t'. insertAVL t k = Some t' \<and> avlInv t' \<and> grown t t' k"
proof (induction t)
  case Null
  then show ?case by (simp add: grown_def)
next
  case (Node nk l r h)
  from Node.prems have l: "avlInv l" and r: "avlInv r"
    and bal: "\<bar>treeHeight l - treeHeight r\<bar> \<le> 1" by simp_all
  consider (lt) "k < nk" | (gt) "k > nk" | (eq) "\<not> k < nk" "\<not> k > nk" by blast
  then show ?case
  proof cases
    case lt
    from Node.IH(1)[OF l] obtain l' where l': "insertAVL l k = Some l'" "avlInv l'" "grown l l' k"
      by blast
    from rebalance_left[OF l'(2) r l bal l'(3) lt, of h h]
    show ?thesis using lt l'(1) by simp
  next
    case gt
    then have nlt: "\<not> k < nk" by auto
    from Node.IH(2)[OF r] obtain r' where r': "insertAVL r k = Some r'" "avlInv r'" "grown r r' k"
      by blast
    from rebalance_right[OF r'(2) l r bal r'(3) gt, of h h]
    show ?thesis using gt nlt r'(1) by simp
  next
    case eq
    then show ?thesis using Node.prems by (simp add: grown_def)
  qed
qed


lemma inorder_rightRotate: "rightRotate t = Some t' \<Longrightarrow> inorder t' = inorder t"
  by (induction t rule: rightRotate.induct) (auto simp: Let_def)

lemma inorder_leftRotate: "leftRotate t = Some t' \<Longrightarrow> inorder t' = inorder t"
  by (induction t rule: leftRotate.induct) (auto simp: Let_def)

lemma inorder_rebalance:
  assumes "rebalance t k = Some t'"
  shows "inorder t' = inorder t"
proof (cases t)
  case Null
  then show ?thesis using assms by (simp add: rebalance_def)
next
  case (Node nk l r h)
  have LR: "inorder t' = inorder t"
    if "leftRotate l = Some l'" "rightRotate (Node nk l' r hh) = Some t'" for l' hh
    using inorder_leftRotate[OF that(1)] inorder_rightRotate[OF that(2)] Node by simp
  have RL: "inorder t' = inorder t"
    if "rightRotate r = Some r'" "leftRotate (Node nk l r' hh) = Some t'" for r' hh
    using inorder_rightRotate[OF that(1)] inorder_leftRotate[OF that(2)] Node by simp
  have R: "inorder t' = inorder t" if "rightRotate (Node nk l r hh) = Some t'" for hh
    using inorder_rightRotate[OF that] Node by simp
  have L: "inorder t' = inorder t" if "leftRotate (Node nk l r hh) = Some t'" for hh
    using inorder_leftRotate[OF that] Node by simp
  show ?thesis
    using assms Node LR RL R L
    by (auto simp: rebalance_def Let_def split: if_splits bind_splits
             simp del: rightRotate.simps leftRotate.simps)
qed

lemma insertAVL_inorder:
  "sorted_wrt (<) (inorder t) \<Longrightarrow> insertAVL t k = Some t' \<Longrightarrow>
   sorted_wrt (<) (inorder t') \<and> set (inorder t') = insert k (set (inorder t))"
proof (induction t arbitrary: t')
  case Null
  then show ?case by auto
next
  case (Node nk l r h)
  from Node.prems(1) have sl: "sorted_wrt (<) (inorder l)" and sr: "sorted_wrt (<) (inorder r)"
    and lo: "\<forall>x\<in>set (inorder l). x < nk" and hi: "\<forall>x\<in>set (inorder r). nk < x"
    and cross: "\<forall>x\<in>set (inorder l). \<forall>y\<in>set (inorder r). x < y"
    by (auto simp: sorted_wrt_append)
  consider (lt) "k < nk" | (gt) "k > nk" | (eq) "\<not> k < nk" "\<not> k > nk" by blast
  then show ?case
  proof cases
    case lt
    with Node.prems(2) obtain l' where l': "insertAVL l k = Some l'"
      and rb: "rebalance (Node nk l' r h) k = Some t'"
      by (auto split: bind_splits)
    from Node.IH(1)[OF sl l'] have IH: "sorted_wrt (<) (inorder l')"
      "set (inorder l') = insert k (set (inorder l))" by auto
    have "inorder t' = inorder l' @ nk # inorder r" using inorder_rebalance[OF rb] by simp
    then show ?thesis using IH sr lo hi cross lt
      by (auto simp: sorted_wrt_append)
  next
    case gt
    then have nlt: "\<not> k < nk" by auto
    with gt Node.prems(2) obtain r' where r': "insertAVL r k = Some r'"
      and rb: "rebalance (Node nk l r' h) k = Some t'"
      by (auto split: bind_splits)
    from Node.IH(2)[OF sr r'] have IH: "sorted_wrt (<) (inorder r')"
      "set (inorder r') = insert k (set (inorder r))" by auto
    have "inorder t' = inorder l @ nk # inorder r'" using inorder_rebalance[OF rb] by simp
    then show ?thesis using IH sl lo hi cross gt
      by (auto simp: sorted_wrt_append)
  next
    case eq
    then have "k = nk" by auto
    then show ?thesis using Node.prems by auto
  qed
qed

lemma searchAVL_sorted:
  "sorted_wrt (<) (inorder t) \<Longrightarrow> searchAVL t k = (k \<in> set (inorder t))"
proof (induction t)
  case Null
  then show ?case by simp
next
  case (Node nk l r h)
  from Node.prems have sl: "sorted_wrt (<) (inorder l)" and sr: "sorted_wrt (<) (inorder r)"
    and lo: "\<forall>x\<in>set (inorder l). x < nk" and hi: "\<forall>x\<in>set (inorder r). nk < x"
    by (auto simp: sorted_wrt_append)
  show ?case using Node.IH(1)[OF sl] Node.IH(2)[OF sr] lo hi
    by (auto dest: less_asym)
qed

lemma insertAVL_present:
  "avlInv t \<Longrightarrow> sorted_wrt (<) (inorder t) \<Longrightarrow> k \<in> set (inorder t) \<Longrightarrow> insertAVL t k = Some t"
proof (induction t)
  case Null
  then show ?case by simp
next
  case (Node nk l r h)
  from Node.prems(2) have sl: "sorted_wrt (<) (inorder l)" and sr: "sorted_wrt (<) (inorder r)"
    and lo: "\<forall>x\<in>set (inorder l). x < nk" and hi: "\<forall>x\<in>set (inorder r). nk < x"
    by (auto simp: sorted_wrt_append)
  from Node.prems(1) have l: "avlInv l" and r: "avlInv r"
    and bal: "\<bar>treeHeight l - treeHeight r\<bar> \<le> 1"
    and h: "h = 1 + max (treeHeight l) (treeHeight r)" by simp_all
  have rb: "rebalance (Node nk l r h) k = Some (Node nk l r h)"
    using rebalance_none[of l r nk h k] bal h l r by (simp add: avlInv_getHeight)
  consider (lt) "k < nk" | (gt) "k > nk" | (eq) "\<not> k < nk" "\<not> k > nk" by blast
  then show ?case
  proof cases
    case lt
    then have "k \<in> set (inorder l)" using Node.prems(3) hi by (auto dest: less_asym)
    from Node.IH(1)[OF l sl this] show ?thesis using lt rb by simp
  next
    case gt
    then have nlt: "\<not> k < nk" by auto
    have "k \<in> set (inorder r)" using Node.prems(3) lo gt by (auto dest: less_asym)
    from Node.IH(2)[OF r sr this] show ?thesis using gt nlt rb by simp
  next
    case eq
    then show ?thesis by simp
  qed
qed

lemma insertAVL_dictInv:
  assumes "dictInv t"
  shows "\<exists>t'. insertAVL t k = Some t' \<and> dictInv t' \<and> set (inorder t') = insert k (set (inorder t))"
proof -
  from assms have a: "avlInv t" and s: "sorted_wrt (<) (inorder t)" by (simp_all add: dictInv_def)
  from insertAVL_avlInv[OF a, of k] obtain t' where t': "insertAVL t k = Some t'" "avlInv t'"
    by blast
  from insertAVL_inorder[OF s t'(1)] t' show ?thesis by (simp add: dictInv_def)
qed

lemma insertAll_dictInv:
  "dictInv t \<Longrightarrow> \<exists>t'. insertAll t ws = Some t' \<and> dictInv t' \<and>
     set (inorder t') = set (inorder t) \<union> set ws"
proof (induction ws arbitrary: t)
  case Nil
  then show ?case by simp
next
  case (Cons w ws)
  from insertAVL_dictInv[OF Cons.prems, of w] obtain t1 where
    t1: "insertAVL t w = Some t1" "dictInv t1" "set (inorder t1) = insert w (set (inorder t))"
    by blast
  from Cons.IH[OF t1(2)] obtain t' where "insertAll t1 ws = Some t'" "dictInv t'"
    "set (inorder t') = set (inorder t1) \<union> set ws" by blast
  then show ?case using t1 by auto
qed

lemma buildDictionary_dictInv:
  "\<exists>t. buildDictionary ws = Some t \<and> dictInv t \<and> set (inorder t) = set ws"
  using insertAll_dictInv[of Null ws] by (simp add: buildDictionary_def dictInv_def)

lemma insertAll_append:
  "insertAll t (ws @ [w]) = insertAll t ws \<bind> (\<lambda>t'. insertAVL t' w)"
  by (induction ws arbitrary: t) (auto split: bind_splits)

lemma buildDictionary_snoc:
  "buildDictionary (ws @ [w]) = buildDictionary ws \<bind> (\<lambda>t. insertAVL t w)"
  by (simp add: buildDictionary_def insertAll_append)

lemma buildDictionary_search:
  "\<exists>t. buildDictionary ws = Some t \<and> (\<forall>w. searchAVL t w = (w \<in> set ws))"
proof -
  obtain t where t: "buildDictionary ws = Some t" "dictInv t" "set (inorder t) = set ws"
    using buildDictionary_dictInv by blast
  then have "searchAVL t w = (w \<in> set ws)" for w
    using searchAVL_sorted[of t w] by (simp add: dictInv_def)
  with t(1) show ?thesis by blast
qed

subsection \<open>The claims about the dictionary\<close>

text \<open>
  Claim C3. For every finite sequence of words inserted into the initially empty dictionary
  with \<open>insertAVL\<close>, the insertions return a tree (no null pointer is dereferenced), and
  \<open>searchAVL\<close> on that tree is true for every word of the sequence and false for every
  other word.
\<close>

theorem searchAVL_buildDictionary:
  "\<exists>t. buildDictionary ws = Some t \<and> (\<forall>w. searchAVL t w = (w \<in> set ws))"
  by (rule buildDictionary_search)

theorem searchAVL_buildDictionary_witness:
  "buildDictionary [''spam'', ''fake'', ''scam'', ''hate''] =
     Some (Node ''scam'' (Node ''fake'' Null (Node ''hate'' Null Null 1) 2)
                         (Node ''spam'' Null Null 1) 3) \<and>
   searchAVL (Node ''scam'' (Node ''fake'' Null (Node ''hate'' Null Null 1) 2)
                            (Node ''spam'' Null Null 1) 3) ''hate'' \<and>
   \<not> searchAVL (Node ''scam'' (Node ''fake'' Null (Node ''hate'' Null Null 1) 2)
                              (Node ''spam'' Null Null 1) 3) ''great''"
proof -
  have b: "buildDictionary [''spam'', ''fake'', ''scam'', ''hate''] =
     Some (Node ''scam'' (Node ''fake'' Null (Node ''hate'' Null Null 1) 2)
                         (Node ''spam'' Null Null 1) 3)"
    by code_simp
  from searchAVL_buildDictionary [of "[''spam'', ''fake'', ''scam'', ''hate'']"] b
  have "\<forall>w. searchAVL (Node ''scam'' (Node ''fake'' Null (Node ''hate'' Null Null 1) 2)
                            (Node ''spam'' Null Null 1) 3) w
            = (w \<in> set [''spam'', ''fake'', ''scam'', ''hate''])"
    by simp
  then show ?thesis using b by simp
qed

text \<open>
  Claim C4. For every finite sequence of words inserted into the initially empty dictionary,
  after every single insertion (that is, for the tree built from every prefix \<open>take n ws\<close>
  of the sequence) every node has subtrees whose heights differ by at most one, and the
  height field stored in every node is one more than the larger of the heights of its
  children, a null child counting as height 0.
\<close>

theorem balanced_after_every_insertion:
  "\<exists>t. buildDictionary (take n ws) = Some t \<and> balanced t \<and> heightsStored t"
proof -
  obtain t where "buildDictionary (take n ws) = Some t" "dictInv t"
    using buildDictionary_dictInv by blast
  then show ?thesis by (auto simp: dictInv_def avlInv_iff)
qed

theorem balanced_after_every_insertion_witness:
  "buildDictionary (take 3 [''a'', ''b'', ''c'', ''d'']) =
     Some (Node ''b'' (Node ''a'' Null Null 1) (Node ''c'' Null Null 1) 2) \<and>
   balanced (Node ''b'' (Node ''a'' Null Null 1) (Node ''c'' Null Null 1) 2) \<and>
   heightsStored (Node ''b'' (Node ''a'' Null Null 1) (Node ''c'' Null Null 1) 2)"
proof -
  have b: "buildDictionary (take 3 [''a'', ''b'', ''c'', ''d'']) =
     Some (Node ''b'' (Node ''a'' Null Null 1) (Node ''c'' Null Null 1) 2)"
    by code_simp
  from balanced_after_every_insertion [of 3 "[''a'', ''b'', ''c'', ''d'']"] b
  show ?thesis by simp
qed

text \<open>
  Claim C5. For every finite sequence of words inserted into the initially empty dictionary,
  whatever its order, the in-order traversal of the resulting tree is strictly increasing in
  the lexicographic order of strings (hence without duplicates); and each single rotation,
  applied to a node that has the child it rotates about, returns a tree with the same
  in-order traversal as the subtree it was applied to.
\<close>

theorem inorder_sorted_and_rotations:
  "(\<exists>t. buildDictionary ws = Some t \<and> sorted_wrt (<) (inorder t) \<and> distinct (inorder t)) \<and>
   (\<exists>x. rightRotate (Node yk (Node xk xl T2 xh) yr yh) = Some x \<and>
        inorder x = inorder (Node yk (Node xk xl T2 xh) yr yh)) \<and>
   (\<exists>y. leftRotate (Node xk xl (Node yk T2 yr yh) xh') = Some y \<and>
        inorder y = inorder (Node xk xl (Node yk T2 yr yh) xh'))"
proof -
  obtain t where t: "buildDictionary ws = Some t" "dictInv t"
    using buildDictionary_dictInv by blast
  then have s: "sorted_wrt (<) (inorder t)" by (simp add: dictInv_def)
  then have "distinct (inorder t)" using strict_sorted_iff[of "inorder t"] by simp
  with t s show ?thesis by (auto simp: Let_def)
qed

theorem inorder_sorted_and_rotations_witness:
  "buildDictionary [''spam'', ''fake'', ''scam'', ''hate''] =
     Some (Node ''scam'' (Node ''fake'' Null (Node ''hate'' Null Null 1) 2)
                         (Node ''spam'' Null Null 1) 3) \<and>
   inorder (Node ''scam'' (Node ''fake'' Null (Node ''hate'' Null Null 1) 2)
                          (Node ''spam'' Null Null 1) 3) = [''fake'', ''hate'', ''scam'', ''spam''] \<and>
   sorted_wrt (<) [''fake'', ''hate'', ''scam'', ''spam'']"
proof -
  have b: "buildDictionary [''spam'', ''fake'', ''scam'', ''hate''] =
     Some (Node ''scam'' (Node ''fake'' Null (Node ''hate'' Null Null 1) 2)
                         (Node ''spam'' Null Null 1) 3)"
    by code_simp
  from inorder_sorted_and_rotations [of "[''spam'', ''fake'', ''scam'', ''hate'']"] b
  have "sorted_wrt (<) (inorder (Node ''scam'' (Node ''fake'' Null (Node ''hate'' Null Null 1) 2)
                                 (Node ''spam'' Null Null 1) 3))"
    by simp
  then show ?thesis using b by simp
qed

text \<open>
  Claim C9. For every state of the dictionary and every word \<open>w\<close>, inserting \<open>w\<close> a
  second time returns the tree returned by the first insertion: the same shape, the same
  keys and the same stored heights; the second insertion changes nothing, and the searches
  after it answer as after the first. A state of the dictionary is a tree that satisfies
  the invariant of the data model (balanced, heights stored, keys strictly increasing in
  order); every tree built from the empty one by insertions is one.
\<close>

theorem insertAVL_twice:
  "(balanced t \<and> heightsStored t \<and> sorted_wrt (<) (inorder t) \<longrightarrow>
      (\<exists>t1. insertAVL t w = Some t1 \<and> insertAVL t1 w = Some t1 \<and>
            (\<forall>x. searchAVL t1 x = (x = w \<or> searchAVL t x)))) \<and>
   (\<exists>d d1. buildDictionary ws = Some d \<and> insertAVL d w = Some d1 \<and> insertAVL d1 w = Some d1)"
proof (intro conjI impI)
  assume "balanced t \<and> heightsStored t \<and> sorted_wrt (<) (inorder t)"
  then have t: "dictInv t" by (simp add: dictInv_def avlInv_iff)
  obtain t1 where t1: "insertAVL t w = Some t1" "dictInv t1"
    "set (inorder t1) = insert w (set (inorder t))"
    using insertAVL_dictInv[OF t, of w] by blast
  have again: "insertAVL t1 w = Some t1"
    using insertAVL_present[of t1 w] t1 by (simp add: dictInv_def)
  have "searchAVL t1 x = (x = w \<or> searchAVL t x)" for x
    using searchAVL_sorted[of t1 x] searchAVL_sorted[of t x] t t1 by (simp add: dictInv_def)
  then show "\<exists>t1. insertAVL t w = Some t1 \<and> insertAVL t1 w = Some t1 \<and>
            (\<forall>x. searchAVL t1 x = (x = w \<or> searchAVL t x))"
    using t1(1) again by blast
next
  obtain d where d: "buildDictionary ws = Some d" "dictInv d"
    using buildDictionary_dictInv by blast
  obtain d1 where d1: "insertAVL d w = Some d1" "dictInv d1"
    "set (inorder d1) = insert w (set (inorder d))"
    using insertAVL_dictInv[OF d(2), of w] by blast
  have "insertAVL d1 w = Some d1"
    using insertAVL_present[of d1 w] d1 by (simp add: dictInv_def)
  with d d1 show "\<exists>d d1. buildDictionary ws = Some d \<and> insertAVL d w = Some d1 \<and>
      insertAVL d1 w = Some d1" by blast
qed

theorem insertAVL_twice_witness:
  "balanced (Node ''scam'' (Node ''fake'' Null Null 1) (Node ''spam'' Null Null 1) 2) \<and>
   heightsStored (Node ''scam'' (Node ''fake'' Null Null 1) (Node ''spam'' Null Null 1) 2) \<and>
   sorted_wrt (<) (inorder (Node ''scam'' (Node ''fake'' Null Null 1) (Node ''spam'' Null Null 1) 2)) \<and>
   insertAVL (Node ''scam'' (Node ''fake'' Null Null 1) (Node ''spam'' Null Null 1) 2) ''hate'' =
     Some (Node ''scam'' (Node ''fake'' Null (Node ''hate'' Null Null 1) 2)
                         (Node ''spam'' Null Null 1) 3) \<and>
   insertAVL (Node ''scam'' (Node ''fake'' Null (Node ''hate'' Null Null 1) 2)
                            (Node ''spam'' Null Null 1) 3) ''hate'' =
     Some (Node ''scam'' (Node ''fake'' Null (Node ''hate'' Null Null 1) 2)
                         (Node ''spam'' Null Null 1) 3)"
proof -
  have h: "balanced (Node ''scam'' (Node ''fake'' Null Null 1) (Node ''spam'' Null Null 1) 2)"
    "heightsStored (Node ''scam'' (Node ''fake'' Null Null 1) (Node ''spam'' Null Null 1) 2)"
    "sorted_wrt (<) (inorder (Node ''scam'' (Node ''fake'' Null Null 1) (Node ''spam'' Null Null 1) 2))"
    by code_simp+
  have i: "insertAVL (Node ''scam'' (Node ''fake'' Null Null 1) (Node ''spam'' Null Null 1) 2) ''hate'' =
     Some (Node ''scam'' (Node ''fake'' Null (Node ''hate'' Null Null 1) 2)
                         (Node ''spam'' Null Null 1) 3)"
    by code_simp
  from insertAVL_twice [of "Node ''scam'' (Node ''fake'' Null Null 1) (Node ''spam'' Null Null 1) 2"
      "''hate''" "[]"] h i
  show ?thesis by simp
qed

section \<open>Properties of the trust graph\<close>

lemma degree_value: "fst (degree g u) = (case adj g u of None \<Rightarrow> 0 | Some us \<Rightarrow> int (length us))"
  by (simp add: degree_def mapIndex_def split: option.splits)

lemma adj_addEdge_neq:
  "u \<noteq> v \<Longrightarrow> adj (addEdge g u v) =
     (adj g)(u \<mapsto> (case adj g u of None \<Rightarrow> [] | Some us \<Rightarrow> us) @ [v],
             v \<mapsto> (case adj g v of None \<Rightarrow> [] | Some vs \<Rightarrow> vs) @ [u])"
  by (auto simp: addEdge_def mapIndex_def split: option.splits)

lemma adj_addEdge_same:
  "adj (addEdge g u u) =
     (adj g)(u \<mapsto> (case adj g u of None \<Rightarrow> [] | Some us \<Rightarrow> us) @ [u, u])"
  by (auto simp: addEdge_def mapIndex_def split: option.splits)

lemma adj_addEdge_other:
  "w \<noteq> u \<Longrightarrow> w \<noteq> v \<Longrightarrow> adj (addEdge g u v) w = adj g w"
  by (auto simp: addEdge_def mapIndex_def Let_def split: option.splits)

lemma degree_addEdge_neq:
  "a \<noteq> b \<Longrightarrow> fst (degree (addEdge g a b) a) = fst (degree g a) + 1 \<and>
               fst (degree (addEdge g a b) b) = fst (degree g b) + 1"
  by (simp add: degree_value adj_addEdge_neq split: option.splits)

lemma degree_addEdge_same: "fst (degree (addEdge g a a) a) = fst (degree g a) + 2"
  by (simp add: degree_value adj_addEdge_same split: option.splits)

lemma degree_addEdge_other:
  "w \<noteq> a \<Longrightarrow> w \<noteq> b \<Longrightarrow> fst (degree (addEdge g a b) w) = fst (degree g w)"
  by (simp add: degree_value adj_addEdge_other)

lemma adj_degree: "adj (snd (degree g u)) = (case adj g u of None \<Rightarrow> (adj g)(u \<mapsto> []) | Some us \<Rightarrow> adj g)"
  by (simp add: degree_def mapIndex_def split: option.splits)

lemma degree_degree: "fst (degree (snd (degree g u)) w) = fst (degree g w)"
  by (simp add: degree_value adj_degree split: option.splits)

lemma runCall_unmentioned:
  "u \<notin> edgeUsers c \<Longrightarrow> fst (degree (runCall g c) u) = fst (degree g u)"
  by (cases c) (auto simp: degree_addEdge_other degree_degree)

lemma foldl_runCall_unmentioned:
  "u \<notin> \<Union> (edgeUsers ` set cs) \<Longrightarrow> fst (degree (foldl runCall g cs) u) = fst (degree g u)"
  by (induction cs arbitrary: g) (auto simp: runCall_unmentioned)

lemma runCalls_unmentioned:
  "u \<notin> \<Union> (edgeUsers ` set cs) \<Longrightarrow> fst (degree (runCalls cs) u) = 0"
  using foldl_runCall_unmentioned[of u cs emptyGraph]
  by (simp add: runCalls_def degree_value emptyGraph_def)

text \<open>
  Claim C8, as amended. For every graph and every two distinct users \<open>a\<close> and \<open>b\<close>,
  \<open>addEdge(a, b)\<close> increases the degree of \<open>a\<close> by exactly 1 and the degree of \<open>b\<close> by
  exactly 1; \<open>addEdge(a, a)\<close> increases the degree of \<open>a\<close> by exactly 2; in both cases the
  degree of every other user is unchanged. After any history of calls on an initially empty
  graph, a user who is an argument of no \<open>addEdge\<close> call has degree 0.
\<close>

theorem addEdge_degree:
  "(a \<noteq> b \<longrightarrow> fst (degree (addEdge g a b) a) = fst (degree g a) + 1 \<and>
               fst (degree (addEdge g a b) b) = fst (degree g b) + 1) \<and>
   fst (degree (addEdge g a a) a) = fst (degree g a) + 2 \<and>
   (w \<noteq> a \<and> w \<noteq> b \<longrightarrow> fst (degree (addEdge g a b) w) = fst (degree g w)) \<and>
   (u \<notin> \<Union> (edgeUsers ` set cs) \<longrightarrow> fst (degree (runCalls cs) u) = 0)"
  using degree_addEdge_neq[of a b g] degree_addEdge_same[of g a]
    degree_addEdge_other[of w a b g] runCalls_unmentioned[of u cs]
  by blast

theorem addEdge_degree_witness:
  "''alice'' \<noteq> ''bob'' \<and>
   fst (degree (addEdge emptyGraph ''alice'' ''bob'') ''alice'') = fst (degree emptyGraph ''alice'') + 1 \<and>
   fst (degree (addEdge emptyGraph ''alice'' ''bob'') ''bob'') = fst (degree emptyGraph ''bob'') + 1 \<and>
   ''botuser'' \<noteq> ''alice'' \<and> ''botuser'' \<noteq> ''bob'' \<and>
   fst (degree (addEdge emptyGraph ''alice'' ''bob'') ''botuser'') = fst (degree emptyGraph ''botuser'') \<and>
   ''botuser'' \<notin> \<Union> (edgeUsers ` set [AddEdge ''alice'' ''bob'', Degree ''botuser'', AddEdge ''bob'' ''charlie'']) \<and>
   fst (degree (runCalls [AddEdge ''alice'' ''bob'', Degree ''botuser'', AddEdge ''bob'' ''charlie'']) ''botuser'') = 0"
  using addEdge_degree [of "''alice''" "''bob''" emptyGraph "''botuser''" "''botuser''"
      "[AddEdge ''alice'' ''bob'', Degree ''botuser'', AddEdge ''bob'' ''charlie'']"]
  by simp

text \<open>
  Claim C8 as stated fails for a pair \<open>(a, a)\<close>: on the empty graph the degree of
  \<open>''a''\<close> is 0 before \<open>addEdge(''a'', ''a'')\<close> and 2 after it, not 1.
\<close>

theorem addEdge_self_counterexample:
  "fst (degree emptyGraph ''a'') = 0 \<and>
   fst (degree (addEdge emptyGraph ''a'' ''a'') ''a'') = 2 \<and>
   fst (degree (addEdge emptyGraph ''a'' ''a'') ''a'') \<noteq> fst (degree emptyGraph ''a'') + 1"
  by (simp add: degree_value adj_addEdge_same emptyGraph_def)

text \<open>
  Claim C10. For every graph and every user \<open>u\<close>, \<open>degree(u)\<close> returns the length of the
  adjacency list of \<open>u\<close>, and 0 when \<open>u\<close> has no entry. The call changes the degree of no
  user: for every \<open>w\<close>, the degree of \<open>w\<close> after the call is its degree before. When \<open>u\<close>
  had no entry the call adds the empty list as the entry of \<open>u\<close>, so the graph after the
  call differs from the graph before; when \<open>u\<close> had an entry the graph is unchanged.
\<close>

theorem degree_query:
  "fst (degree g u) = (case adj g u of None \<Rightarrow> 0 | Some us \<Rightarrow> int (length us)) \<and>
   (\<forall>w. fst (degree (snd (degree g u)) w) = fst (degree g w)) \<and>
   (adj g u = None \<longrightarrow> adj (snd (degree g u)) = (adj g)(u \<mapsto> []) \<and> snd (degree g u) \<noteq> g) \<and>
   (adj g u \<noteq> None \<longrightarrow> snd (degree g u) = g)"
proof -
  have "snd (degree g u) \<noteq> g" if "adj g u = None"
  proof
    assume "snd (degree g u) = g"
    then have "adj (snd (degree g u)) u = adj g u" by simp
    then show False using that by (simp add: adj_degree)
  qed
  moreover have "snd (degree g u) = g" if "adj g u \<noteq> None"
    using that by (auto simp: degree_def mapIndex_def)
  ultimately show ?thesis
    using degree_value[of g u] degree_degree[of g u] adj_degree[of g u] by auto
qed

theorem degree_query_witness:
  "adj emptyGraph ''botuser'' = None \<and> fst (degree emptyGraph ''botuser'') = 0 \<and>
   adj (snd (degree emptyGraph ''botuser'')) = (adj emptyGraph)(''botuser'' \<mapsto> []) \<and>
   snd (degree emptyGraph ''botuser'') \<noteq> emptyGraph \<and>
   adj (addEdge emptyGraph ''alice'' ''bob'') ''bob'' \<noteq> None \<and>
   snd (degree (addEdge emptyGraph ''alice'' ''bob'') ''bob'') = addEdge emptyGraph ''alice'' ''bob''"
proof -
  have a: "adj emptyGraph ''botuser'' = None" by (simp add: emptyGraph_def)
  have b: "adj (addEdge emptyGraph ''alice'' ''bob'') ''bob'' \<noteq> None"
    by (simp add: adj_addEdge_neq)
  show ?thesis
    using degree_query [of emptyGraph "''botuser''"]
      degree_query [of "addEdge emptyGraph ''alice'' ''bob''" "''bob''"] a b
    by simp
qed

section \<open>Correctness of the pattern matcher\<close>

lemma pmatch_0: "e \<le> length t \<Longrightarrow> pmatch p t e 0"
  by (simp add: pmatch_def)

lemma pmatch_Suc:
  "pmatch p t (Suc e) (Suc k) = (pmatch p t e k \<and> k < length p \<and> e < length t \<and> p ! k = t ! e)"
proof -
  have "(\<forall>x<Suc k. p ! x = t ! (Suc e - Suc k + x)) = ((\<forall>x<k. p ! x = t ! (e - k + x)) \<and> p ! k = t ! (e - k + k))"
    by (auto simp: less_Suc_eq)
  then show ?thesis by (auto simp: pmatch_def)
qed

lemma pmatch_bounds: "pmatch p t e k \<Longrightarrow> k \<le> e \<and> e \<le> length t \<and> k \<le> length p"
  by (simp add: pmatch_def)

lemma pmatch_nth: "pmatch p t e k \<Longrightarrow> x < k \<Longrightarrow> p ! x = t ! (e - k + x)"
  by (simp add: pmatch_def)

lemma pmatchI:
  "k \<le> e \<Longrightarrow> e \<le> length t \<Longrightarrow> k \<le> length p \<Longrightarrow> (\<And>x. x < k \<Longrightarrow> p ! x = t ! (e - k + x)) \<Longrightarrow>
   pmatch p t e k"
  by (simp add: pmatch_def)

lemma pmatch_trans:
  assumes "pmatch p p j k" "pmatch p t e j"
  shows "pmatch p t e k"
proof (rule pmatchI)
  note b1 = pmatch_bounds[OF assms(1)] and b2 = pmatch_bounds[OF assms(2)]
  show "k \<le> e" "e \<le> length t" "k \<le> length p" using b1 b2 by auto
  fix x assume x: "x < k"
  have "p ! x = p ! (j - k + x)" using pmatch_nth[OF assms(1) x] .
  also have "j - k + x < j" using b1 x by linarith
  then have "p ! (j - k + x) = t ! (e - j + (j - k + x))" by (rule pmatch_nth[OF assms(2)])
  also have "e - j + (j - k + x) = e - k + x" using b1 b2 by linarith
  finally show "p ! x = t ! (e - k + x)" .
qed

lemma pmatch_border:
  assumes "pmatch p t e j" "pmatch p t e k" "k \<le> j"
  shows "pmatch p p j k"
proof (rule pmatchI)
  note b1 = pmatch_bounds[OF assms(1)] and b2 = pmatch_bounds[OF assms(2)]
  show "k \<le> j" "j \<le> length p" "k \<le> length p" using b1 b2 assms(3) by auto
  fix x assume x: "x < k"
  have "j - k + x < j" using assms(3) x by linarith
  then have "p ! (j - k + x) = t ! (e - j + (j - k + x))" by (rule pmatch_nth[OF assms(1)])
  also have "e - j + (j - k + x) = e - k + x" using b1 b2 assms(3) by linarith
  also have "t ! (e - k + x) = p ! x" using pmatch_nth[OF assms(2) x] by simp
  finally show "p ! x = p ! (j - k + x)" by simp
qed

lemma pmatch_shorter:
  assumes "pmatch p t (s + m) m" "s \<le> e" "e \<le> s + m"
  shows "pmatch p t e (e - s)"
proof (rule pmatchI)
  note b = pmatch_bounds[OF assms(1)]
  show "e - s \<le> e" "e \<le> length t" "e - s \<le> length p" using b assms(2,3) by auto
  fix x assume x: "x < e - s"
  then have "x < m" using assms(3) by linarith
  then have "p ! x = t ! (s + m - m + x)" by (rule pmatch_nth[OF assms(1)])
  moreover have "e - (e - s) = s" using assms(2) by simp
  ultimately show "p ! x = t ! (e - (e - s) + x)" by simp
qed

lemma lpb_set_finite: "finite {k. k < n \<and> pmatch p p n k}"
  by simp

lemma lpb_props:
  assumes "1 \<le> n" "n \<le> length p"
  shows "lpb p n < n" "pmatch p p n (lpb p n)"
proof -
  let ?S = "{k. k < n \<and> pmatch p p n k}"
  have "0 \<in> ?S" using assms by (simp add: pmatch_0)
  then have "?S \<noteq> {}" by blast
  then have "Max ?S \<in> ?S" using Max_in[of ?S] by simp
  then show "lpb p n < n" "pmatch p p n (lpb p n)" by (simp_all add: lpb_def)
qed

lemma lpb_max: "k < n \<Longrightarrow> pmatch p p n k \<Longrightarrow> k \<le> lpb p n"
  unfolding lpb_def by (rule Max_ge) simp_all

lemma lpb_eqI:
  assumes "k < n" "pmatch p p n k" "\<And>k'. k < k' \<Longrightarrow> k' < n \<Longrightarrow> \<not> pmatch p p n k'"
    "1 \<le> n" "n \<le> length p"
  shows "lpb p n = k"
proof -
  have "k \<le> lpb p n" using lpb_max[OF assms(1,2)] .
  moreover have "\<not> k < lpb p n" using assms(3)[of "lpb p n"] lpb_props[OF assms(4,5)] by blast
  ultimately show ?thesis by simp
qed


lemma lpsInv_init: "p \<noteq> [] \<Longrightarrow> lpsInv p (replicate (length p) 0) 0 1"
proof -
  assume ne: "p \<noteq> []"
  then have len: "1 \<le> length p" by (cases p) auto
  have "lpb p 1 = 0" using lpb_props(1)[of 1 p] len by simp
  moreover have "pmatch p p 1 0" using len by (simp add: pmatch_0)
  moreover have "replicate (length p) 0 ! (n - 1) = (0::nat)" if "1 \<le> n" "n \<le> 1" for n
  proof -
    have "n - 1 < length p" using that ne by (cases p) auto
    then show ?thesis by (rule nth_replicate)
  qed
  ultimately show ?thesis using len by (auto simp: lpsInv_def)
qed

lemma lps_step_match:
  assumes inv: "lpsInv p lps len i" and i: "i < length p" and eq: "p ! i = p ! len"
  shows "lpsInv p (lps[i := Suc len]) (Suc len) (Suc i)"
proof -
  from inv have b: "1 \<le> i" "length lps = length p" "len < i"
    and tab: "\<And>n. 1 \<le> n \<Longrightarrow> n \<le> i \<Longrightarrow> lps ! (n - 1) = lpb p n"
    and bd: "pmatch p p i len"
    and mx: "\<And>k. len < k \<Longrightarrow> k < i \<Longrightarrow> \<not> pmatch p p (Suc i) (Suc k)"
    by (auto simp: lpsInv_def)
  have ext: "pmatch p p (Suc i) (Suc len)"
    using bd i b eq by (simp add: pmatch_Suc)
  have nomore: "\<not> pmatch p p (Suc i) k'" if "Suc len < k'" "k' < Suc i" for k'
  proof -
    define k where "k = k' - 1"
    have k: "k' = Suc k" using that(1) by (simp add: k_def)
    then show ?thesis using mx[of k] that by simp
  qed
  have l: "lpb p (Suc i) = Suc len"
    by (rule lpb_eqI) (use ext b i nomore in auto)
  have tab': "(lps[i := Suc len]) ! (n - 1) = lpb p n" if "1 \<le> n" "n \<le> Suc i" for n
  proof (cases "n = Suc i")
    case True
    then show ?thesis using l i b by simp
  next
    case False
    then have "n \<le> i" "n - 1 \<noteq> i" using that by auto
    then show ?thesis using tab[of n] that by simp
  qed
  have mx': "\<not> pmatch p p (Suc (Suc i)) (Suc k)" if "Suc len < k" "k < Suc i" for k
  proof
    assume "pmatch p p (Suc (Suc i)) (Suc k)"
    then have "pmatch p p (Suc i) k" by (simp add: pmatch_Suc)
    then show False using nomore[of k] that by simp
  qed
  show ?thesis
    unfolding lpsInv_def using b i ext tab' mx' by auto
qed

lemma lps_step_back:
  assumes inv: "lpsInv p lps len i" and i: "i < length p" and ne: "p ! i \<noteq> p ! len"
    and len: "len \<noteq> 0"
  shows "lpsInv p lps (lps ! (len - 1)) i" "lps ! (len - 1) < len"
proof -
  from inv have b: "1 \<le> i" "length lps = length p" "len < i"
    and tab: "\<And>n. 1 \<le> n \<Longrightarrow> n \<le> i \<Longrightarrow> lps ! (n - 1) = lpb p n"
    and bd: "pmatch p p i len"
    and mx: "\<And>k. len < k \<Longrightarrow> k < i \<Longrightarrow> \<not> pmatch p p (Suc i) (Suc k)"
    by (auto simp: lpsInv_def)
  have v: "lps ! (len - 1) = lpb p len" using tab[of len] len b by simp
  have lp: "lpb p len < len" "pmatch p p len (lpb p len)"
    using lpb_props[of len p] len b i by simp_all
  show "lps ! (len - 1) < len" using v lp by simp
  have bd': "pmatch p p i (lpb p len)" using pmatch_trans[OF lp(2) bd] .
  have mx': "\<not> pmatch p p (Suc i) (Suc k)" if "lpb p len < k" "k < i" for k
  proof
    assume a: "pmatch p p (Suc i) (Suc k)"
    then have pk: "pmatch p p i k" and ek: "p ! k = p ! i" by (simp_all add: pmatch_Suc)
    consider "len < k" | "k = len" | "k < len" by linarith
    then show False
    proof cases
      case 1
      then show ?thesis using mx[of k] that a by simp
    next
      case 2
      then show ?thesis using ek ne by simp
    next
      case 3
      then have "pmatch p p len k" using pmatch_border[OF bd pk] by simp
      then have "k \<le> lpb p len" using lpb_max[of k len p] 3 by simp
      then show ?thesis using that by simp
    qed
  qed
  show "lpsInv p lps (lps ! (len - 1)) i"
    unfolding lpsInv_def using b i v lp bd' mx' tab inv by (auto simp: lpsInv_def)
qed

lemma lps_step_zero:
  assumes inv: "lpsInv p lps 0 i" and i: "i < length p" and ne: "p ! i \<noteq> p ! 0"
  shows "lpsInv p (lps[i := 0]) 0 (Suc i)"
proof -
  from inv have b: "1 \<le> i" "length lps = length p"
    and tab: "\<And>n. 1 \<le> n \<Longrightarrow> n \<le> i \<Longrightarrow> lps ! (n - 1) = lpb p n"
    and mx: "\<And>k. 0 < k \<Longrightarrow> k < i \<Longrightarrow> \<not> pmatch p p (Suc i) (Suc k)"
    by (auto simp: lpsInv_def)
  have z: "pmatch p p (Suc i) 0" using i by (simp add: pmatch_0)
  have nomore: "\<not> pmatch p p (Suc i) k'" if "0 < k'" "k' < Suc i" for k'
  proof -
    define k where "k = k' - 1"
    have k: "k' = Suc k" using that(1) by (simp add: k_def)
    show ?thesis
    proof (cases "k = 0")
      case True
      then show ?thesis using k ne by (auto simp: pmatch_Suc)
    next
      case False
      then show ?thesis using mx[of k] that k by simp
    qed
  qed
  have l: "lpb p (Suc i) = 0"
    by (rule lpb_eqI) (use z i nomore in auto)
  have tab': "(lps[i := 0]) ! (n - 1) = lpb p n" if "1 \<le> n" "n \<le> Suc i" for n
  proof (cases "n = Suc i")
    case True
    then show ?thesis using l i b by simp
  next
    case False
    then have "n \<le> i" "n - 1 \<noteq> i" using that by auto
    then show ?thesis using tab[of n] that by simp
  qed
  have mx': "\<not> pmatch p p (Suc (Suc i)) (Suc k)" if "0 < k" "k < Suc i" for k
  proof
    assume "pmatch p p (Suc (Suc i)) (Suc k)"
    then have "pmatch p p (Suc i) k" by (simp add: pmatch_Suc)
    then show False using nomore[of k] that by simp
  qed
  show ?thesis
    unfolding lpsInv_def using b i z tab' mx' by auto
qed

lemma computeLPS_loop_correct:
  "lpsInv p lps len i \<Longrightarrow> \<exists>r. computeLPS_loop p lps len i = Some r \<and> lpsCorrect p r"
proof (induction "2 * length p + len - 2 * i" arbitrary: lps len i rule: less_induct)
  case less
  note inv = less.prems
  from inv have b: "1 \<le> i" "i \<le> length p" "length lps = length p" "len < i"
    by (auto simp: lpsInv_def)
  show ?case
  proof (cases "i < length p")
    case False
    then have "i = length p" using b by simp
    then have "lpsCorrect p lps" using inv by (auto simp: lpsInv_def lpsCorrect_def)
    then show ?thesis using False by (subst computeLPS_loop.simps) simp
  next
    case True
    have ca: "charAt p i = Some (p ! i)" "charAt p len = Some (p ! len)"
      using True b by (simp_all add: charAt_def)
    consider (m) "p ! i = p ! len" | (bk) "p ! i \<noteq> p ! len" "len \<noteq> 0"
      | (z) "p ! i \<noteq> p ! len" "len = 0" by blast
    then show ?thesis
    proof cases
      case m
      have inv': "lpsInv p (lps[i := Suc len]) (Suc len) (Suc i)"
        by (rule lps_step_match[OF inv True m])
      have "2 * length p + Suc len - 2 * Suc i < 2 * length p + len - 2 * i"
        using True by simp
      from less.hyps[OF this inv'] obtain r where
        "computeLPS_loop p (lps[i := Suc len]) (Suc len) (Suc i) = Some r" "lpsCorrect p r" by blast
      then show ?thesis using True ca m b
        by (subst computeLPS_loop.simps) (simp add: vecSet_def)
    next
      case bk
      have inv': "lpsInv p lps (lps ! (len - 1)) i" and dec: "lps ! (len - 1) < len"
        using lps_step_back[OF inv True bk] by simp_all
      have "2 * length p + lps ! (len - 1) - 2 * i < 2 * length p + len - 2 * i"
        using True dec by simp
      from less.hyps[OF this inv'] obtain r where
        "computeLPS_loop p lps (lps ! (len - 1)) i = Some r" "lpsCorrect p r" by blast
      then show ?thesis using True ca bk b
        by (subst computeLPS_loop.simps) (simp add: vecAt_def)
    next
      case z
      have inv0: "lpsInv p lps 0 i" using inv z by simp
      have inv': "lpsInv p (lps[i := 0]) 0 (Suc i)"
        using lps_step_zero[OF inv0 True] z by simp
      have "2 * length p + 0 - 2 * Suc i < 2 * length p + len - 2 * i"
        using True by simp
      from less.hyps[OF this inv'] obtain r where
        "computeLPS_loop p (lps[i := 0]) 0 (Suc i) = Some r" "lpsCorrect p r" by blast
      then show ?thesis using True ca z b
        by (subst computeLPS_loop.simps) (simp add: vecSet_def)
    qed
  qed
qed

lemma computeLPS_correct:
  "p \<noteq> [] \<Longrightarrow> \<exists>r. computeLPS p = Some r \<and> lpsCorrect p r"
  unfolding computeLPS_def by (rule computeLPS_loop_correct) (rule lpsInv_init)


lemma filter_upt_extend:
  assumes "a \<le> b" "\<And>s. a \<le> s \<Longrightarrow> s < b \<Longrightarrow> \<not> P s"
  shows "filter P [0..<b] = filter P [0..<a]"
proof -
  have "[0..<b] = [0..<a] @ [a..<b]" using assms(1) upt_add_eq_append[of 0 a "b - a"] by simp
  moreover have "filter P [a..<b] = []" using assms(2) by (auto simp: filter_empty_conv)
  ultimately show ?thesis by simp
qed

lemma matchAt_take_drop:
  assumes "p \<noteq> []"
  shows "matchAt t p s = (take (length p) (drop s t) = p)"
proof
  assume m: "matchAt t p s"
  then have b: "s + length p \<le> length t" and
    n: "\<And>x. x < length p \<Longrightarrow> p ! x = t ! (s + x)"
    using pmatch_nth[of p t "s + length p" "length p"] pmatch_bounds[of p t "s + length p" "length p"]
    by (simp_all add: matchAt_def)
  show "take (length p) (drop s t) = p"
    by (rule nth_equalityI) (use b n in auto)
next
  assume e: "take (length p) (drop s t) = p"
  then have "length (take (length p) (drop s t)) = length p" by simp
  then have "min (length t - s) (length p) = length p" by (simp add: min.commute)
  moreover have "0 < length p" using assms by simp
  ultimately have b: "s + length p \<le> length t" by linarith
  have "p ! x = t ! (s + x)" if "x < length p" for x
  proof -
    have "p ! x = take (length p) (drop s t) ! x" using e by simp
    also have "\<dots> = t ! (s + x)" using that b by simp
    finally show ?thesis .
  qed
  then show "matchAt t p s" using b by (simp add: matchAt_def pmatch_def)
qed

lemma no_match_gap:
  assumes pm: "pmatch p t e j" and j: "1 \<le> j" "j \<le> length p"
    and s: "e - j < s" "s < e - lpb p j"
  shows "\<not> matchAt t p s"
proof
  assume "matchAt t p s"
  then have m: "pmatch p t (s + length p) (length p)" by (simp add: matchAt_def)
  note b = pmatch_bounds[OF pm]
  have se: "s \<le> e" "e \<le> s + length p" using s j b by linarith+
  have k: "pmatch p t e (e - s)" by (rule pmatch_shorter[OF m se])
  have kj: "e - s < j" using s b by linarith
  then have "pmatch p p j (e - s)" using pmatch_border[OF pm k] by simp
  then have "e - s \<le> lpb p j" using lpb_max[of "e - s" j p] kj by simp
  then show False using s se by linarith
qed

lemma mismatch_no_match:
  assumes pm: "pmatch p t e j" and j: "j < length p" and ne: "p ! j \<noteq> t ! e"
  shows "\<not> matchAt t p (e - j)"
proof
  assume "matchAt t p (e - j)"
  then have m: "pmatch p t (e - j + length p) (length p)" by (simp add: matchAt_def)
  have "p ! j = t ! (e - j + length p - length p + j)" by (rule pmatch_nth[OF m j])
  moreover have "e - j + length p - length p + j = e" using pmatch_bounds[OF pm] by simp
  ultimately show False using ne by simp
qed

lemma late_no_match: "length t < s + length p \<Longrightarrow> \<not> matchAt t p s"
  by (auto simp: matchAt_def dest: pmatch_bounds)

lemma find_step_fallback:
  assumes inv: "findInv t p occ i j" and i: "i < length t" and ne: "p ! j \<noteq> t ! i"
    and j: "j \<noteq> 0" and lps: "lpsCorrect p lps"
  shows "findInv t p occ i (lps ! (j - 1))" "lps ! (j - 1) < j"
proof -
  from inv have b: "j \<le> i" "j < length p" and pm: "pmatch p t i j"
    and occ: "occ = filter (matchAt t p) [0..<i - j]" by (auto simp: findInv_def)
  have v: "lps ! (j - 1) = lpb p j" using lps j b by (simp add: lpsCorrect_def)
  have lp: "lpb p j < j" "pmatch p p j (lpb p j)" using lpb_props[of j p] j b by simp_all
  show "lps ! (j - 1) < j" using v lp by simp
  have pm': "pmatch p t i (lpb p j)" by (rule pmatch_trans[OF lp(2) pm])
  have "\<not> matchAt t p s" if "i - j \<le> s" "s < i - lpb p j" for s
  proof (cases "s = i - j")
    case True
    then show ?thesis using mismatch_no_match[OF pm b(2) ne] by simp
  next
    case False
    then show ?thesis using no_match_gap[OF pm _ _ _ that(2)] that(1) j b by simp
  qed
  then have "filter (matchAt t p) [0..<i - lpb p j] = filter (matchAt t p) [0..<i - j]"
    using lp(1) by (intro filter_upt_extend) auto
  then show "findInv t p occ i (lps ! (j - 1))"
    using b i v lp pm' occ by (simp add: findInv_def)
qed

lemma find_step_skip:
  assumes inv: "findInv t p occ i 0" and i: "i < length t" and ne: "p ! 0 \<noteq> t ! i"
  shows "findInv t p occ (Suc i) 0"
proof -
  from inv have b: "0 < length p" and pm: "pmatch p t i 0"
    and occ: "occ = filter (matchAt t p) [0..<i]" by (auto simp: findInv_def)
  have "\<not> matchAt t p i" using mismatch_no_match[OF pm b ne] by simp
  then have "filter (matchAt t p) [0..<Suc i] = filter (matchAt t p) [0..<i]" by simp
  then show ?thesis using b i occ by (simp add: findInv_def pmatch_0)
qed

lemma find_step_match:
  assumes inv: "findInv t p occ i j" and i: "i < length t" and eq: "p ! j = t ! i"
    and j: "Suc j < length p"
  shows "findInv t p occ (Suc i) (Suc j)"
  using assms by (simp add: findInv_def pmatch_Suc)

lemma find_step_full:
  assumes inv: "findInv t p occ i j" and i: "i < length t" and eq: "p ! j = t ! i"
    and j: "Suc j = length p" and lps: "lpsCorrect p lps"
  shows "findInv t p (occ @ [Suc i - Suc j]) (Suc i) (lps ! (Suc j - 1))"
    "lps ! (Suc j - 1) < Suc j"
proof -
  from inv have b: "j \<le> i" and pm: "pmatch p t i j"
    and occ: "occ = filter (matchAt t p) [0..<i - j]" by (auto simp: findInv_def)
  let ?m = "length p"
  have full: "pmatch p t (Suc i) ?m" using pm i eq j by (simp add: pmatch_Suc flip: j)
  have v: "lps ! (Suc j - 1) = lpb p ?m" using lps j by (simp add: lpsCorrect_def)
  have lp: "lpb p ?m < ?m" "pmatch p p ?m (lpb p ?m)" using lpb_props[of ?m p] j by simp_all
  show "lps ! (Suc j - 1) < Suc j" using v lp j by simp
  have pm': "pmatch p t (Suc i) (lpb p ?m)" by (rule pmatch_trans[OF lp(2) full])
  have "i - j + ?m = Suc i" using b j by simp
  then have here: "matchAt t p (i - j)" using full by (simp add: matchAt_def)
  then have 1: "occ @ [i - j] = filter (matchAt t p) [0..<Suc (i - j)]" using occ by simp
  have "\<not> matchAt t p s" if "Suc (i - j) \<le> s" "s < Suc i - lpb p ?m" for s
  proof -
    have "Suc i - ?m < s" using that(1) j b by simp
    then show ?thesis using no_match_gap[OF full _ _ _ that(2)] j by simp
  qed
  then have 2: "filter (matchAt t p) [0..<Suc i - lpb p ?m] = filter (matchAt t p) [0..<Suc (i - j)]"
    using lp(1) j b by (intro filter_upt_extend) auto
  have 3: "occ @ [i - j] = filter (matchAt t p) [0..<Suc i - lpb p ?m]"
    by (simp only: 1 2)
  have "lpb p ?m \<le> Suc i" "Suc i \<le> length t" using lp(1) j b i by simp_all
  then show "findInv t p (occ @ [Suc i - Suc j]) (Suc i) (lps ! (Suc j - 1))"
    unfolding findInv_def v using lp(1) pm' 3 by simp
qed

lemma find_exit:
  assumes inv: "findInv t p occ i j" and i: "\<not> i < length t"
  shows "occ = filter (matchAt t p) [0..<length t]"
proof -
  from inv have b: "j \<le> i" "i = length t" "j < length p"
    and occ: "occ = filter (matchAt t p) [0..<i - j]" using i by (auto simp: findInv_def)
  have "\<not> matchAt t p s" if "i - j \<le> s" for s
    using that b by (intro late_no_match) linarith
  then have "filter (matchAt t p) [0..<length t] = filter (matchAt t p) [0..<i - j]"
    using b by (intro filter_upt_extend) auto
  then show ?thesis using occ by simp
qed


lemma findLoop_correct:
  assumes lps: "lpsCorrect p lps"
  shows "findInv t p occ i j \<Longrightarrow>
         findLoop t p lps occ i j = Some (filter (matchAt t p) [0..<length t])"
proof (induction "2 * length t + j - 2 * i" arbitrary: occ i j rule: less_induct)
  case less
  note inv = less.prems
  from inv have b: "j \<le> i" "i \<le> length t" "j < length p" by (auto simp: findInv_def)
  have ll: "length lps = length p" using lps by (simp add: lpsCorrect_def)
  show ?case
  proof (cases "i < length t")
    case False
    then show ?thesis using find_exit[OF inv False] by (subst findLoop.simps) simp
  next
    case True
    have ca: "charAt p j = Some (p ! j)" "charAt t i = Some (t ! i)"
      using True b by (simp_all add: charAt_def)
    consider (full) "p ! j = t ! i" "Suc j = length p"
      | (advfb) "p ! j = t ! i" "Suc j < length p" "Suc i < length t" "p ! Suc j \<noteq> t ! Suc i"
      | (adv) "p ! j = t ! i" "Suc j < length p" "\<not> (Suc i < length t \<and> p ! Suc j \<noteq> t ! Suc i)"
      | (fallback) "p ! j \<noteq> t ! i" "j \<noteq> 0"
      | (skip) "p ! j \<noteq> t ! i" "j = 0"
      using b by linarith
    then show ?thesis
    proof cases
      case full
      have inv': "findInv t p (occ @ [Suc i - Suc j]) (Suc i) (lps ! (Suc j - 1))"
        and dec: "lps ! (Suc j - 1) < Suc j"
        using find_step_full[OF inv True full lps] by simp_all
      have "2 * length t + lps ! (Suc j - 1) - 2 * Suc i < 2 * length t + j - 2 * i"
        using True dec by simp
      from less.hyps[OF this inv'] show ?thesis using True ca full ll
        by (subst findLoop.simps) (simp add: vecAt_def)
    next
      case advfb
      have inv1: "findInv t p occ (Suc i) (Suc j)"
        by (rule find_step_match[OF inv True advfb(1,2)])
      have inv': "findInv t p occ (Suc i) (lps ! (Suc j - 1))"
        and dec: "lps ! (Suc j - 1) < Suc j"
        using find_step_fallback[OF inv1 advfb(3,4) _ lps] by simp_all
      have ca': "charAt p (Suc j) = Some (p ! Suc j)" "charAt t (Suc i) = Some (t ! Suc i)"
        using advfb by (simp_all add: charAt_def)
      have "2 * length t + lps ! (Suc j - 1) - 2 * Suc i < 2 * length t + j - 2 * i"
        using True dec by simp
      from less.hyps[OF this inv'] show ?thesis using True ca ca' advfb ll
        by (subst findLoop.simps) (simp add: vecAt_def)
    next
      case adv
      have inv': "findInv t p occ (Suc i) (Suc j)"
        by (rule find_step_match[OF inv True adv(1,2)])
      have ca': "Suc i < length t \<Longrightarrow> charAt p (Suc j) = Some (p ! Suc j)"
        "Suc i < length t \<Longrightarrow> charAt t (Suc i) = Some (t ! Suc i)"
        using adv by (simp_all add: charAt_def)
      have "2 * length t + Suc j - 2 * Suc i < 2 * length t + j - 2 * i"
        using True by simp
      from less.hyps[OF this inv'] show ?thesis using True ca ca' adv ll
        by (subst findLoop.simps) (auto simp: vecAt_def)
    next
      case fallback
      have inv': "findInv t p occ i (lps ! (j - 1))" and dec: "lps ! (j - 1) < j"
        using find_step_fallback[OF inv True fallback lps] by simp_all
      have "2 * length t + lps ! (j - 1) - 2 * i < 2 * length t + j - 2 * i"
        using True dec by simp
      from less.hyps[OF this inv'] show ?thesis using True ca fallback ll b
        by (subst findLoop.simps) (simp add: vecAt_def)
    next
      case skip
      have inv0: "findInv t p occ i 0" using inv skip by simp
      have inv': "findInv t p occ (Suc i) 0"
        using find_step_skip[OF inv0 True] skip by simp
      have "2 * length t + 0 - 2 * Suc i < 2 * length t + j - 2 * i"
        using True by simp
      from less.hyps[OF this inv'] show ?thesis using True ca skip ll b
        by (subst findLoop.simps) (simp add: vecAt_def)
    qed
  qed
qed

lemma findInv_init: "p \<noteq> [] \<Longrightarrow> findInv t p [] 0 0"
  by (simp add: findInv_def pmatch_0)

lemma findPatternOccurrences_matchAt:
  assumes "p \<noteq> []"
  shows "findPatternOccurrences t p = Some (filter (matchAt t p) [0..<length t])"
proof -
  obtain lps where l: "computeLPS p = Some lps" "lpsCorrect p lps"
    using computeLPS_correct[OF assms] by blast
  show ?thesis
    using findLoop_correct[OF l(2) findInv_init[OF assms], of t] l(1) assms
    by (simp add: findPatternOccurrences_def)
qed

lemma findPatternOccurrences_correct:
  "findPatternOccurrences text pattern =
     Some (if pattern = [] then []
           else filter (\<lambda>i. take (length pattern) (drop i text) = pattern) [0..<length text])"
proof (cases "pattern = []")
  case True
  then show ?thesis by (simp add: findPatternOccurrences_def)
next
  case False
  have "matchAt text pattern = (\<lambda>i. take (length pattern) (drop i text) = pattern)"
    using matchAt_take_drop[OF False] by auto
  then show ?thesis using findPatternOccurrences_matchAt[OF False, of "text"] False by simp
qed

lemma sorted_filter_upt: "sorted_wrt (<) (filter P [0..<n])"
  by (rule sorted_wrt_filter) (simp add: sorted_wrt_upt)

text \<open>
  Claim C2. For every text and every non-empty pattern, \<open>findPatternOccurrences\<close> returns
  (it terminates and reads no index out of range) the list, in strictly increasing order,
  of exactly the indices \<open>i\<close> at which the substring of the text of the length of the
  pattern equals the pattern; overlapping occurrences are all listed, as for \<open>''aa''\<close> in
  \<open>''aaaa''\<close>. For the empty pattern the list is empty for every text. \<open>containsPattern\<close>
  is true exactly when the list is not empty.
\<close>

theorem findPatternOccurrences_all_matches:
  "\<exists>occ. findPatternOccurrences text pattern = Some occ \<and>
         sorted_wrt (<) occ \<and>
         set occ = {i. pattern \<noteq> [] \<and> take (length pattern) (drop i text) = pattern} \<and>
         containsPattern text pattern = Some (occ \<noteq> [])"
proof -
  let ?occ = "if pattern = [] then []
              else filter (\<lambda>i. take (length pattern) (drop i text) = pattern) [0..<length text]"
  have f: "findPatternOccurrences text pattern = Some ?occ"
    by (rule findPatternOccurrences_correct)
  have s: "sorted_wrt (<) ?occ" by (simp add: sorted_filter_upt)
  have "i < length text" if "pattern \<noteq> []" "take (length pattern) (drop i text) = pattern" for i
  proof (rule ccontr)
    assume "\<not> i < length text"
    then have "take (length pattern) (drop i text) = []" by simp
    then show False using that by simp
  qed
  then have m: "set ?occ = {i. pattern \<noteq> [] \<and> take (length pattern) (drop i text) = pattern}"
    by auto
  have c: "containsPattern text pattern = Some (?occ \<noteq> [])"
    by (simp only: containsPattern_def f) simp
  show ?thesis using f s m c by blast
qed

theorem findPatternOccurrences_all_matches_witness:
  "findPatternOccurrences ''aaaa'' ''aa'' = Some [0, 1, 2] \<and>
   set [0, 1, 2] = {i. ''aa'' \<noteq> [] \<and> take (length ''aa'') (drop i ''aaaa'') = ''aa''} \<and>
   containsPattern ''aaaa'' ''aa'' = Some True \<and>
   findPatternOccurrences ''aaaa'' [] = Some []"
proof -
  have e: "findPatternOccurrences ''aaaa'' ''aa'' = Some [0, 1, 2]" by code_simp
  have n: "findPatternOccurrences ''aaaa'' [] = Some []" by code_simp
  from findPatternOccurrences_all_matches [of "''aaaa''" "''aa''"] e n
  show ?thesis by auto
qed

section \<open>Properties of the scoring policy\<close>

lemma occursIn_code [code]:
  "occursIn phrase body =
     (phrase \<noteq> [] \<and> list_ex (\<lambda>i. take (length phrase) (drop i body) = phrase) [0..<length body])"
  by (auto simp: occursIn_def list_ex_iff)

lemma splitFields_nonempty: "splitFields s \<noteq> []"
  by (induction s) (auto split: list.splits)

lemma splitFields_word:
  assumes "\<forall>c\<in>set w. \<not> isspace c"
  shows "splitFields (w @ r) = (w @ hd (splitFields r)) # tl (splitFields r)"
  using assms
proof (induction w)
  case Nil
  then show ?case using splitFields_nonempty[of r] by simp
next
  case (Cons c w)
  then show ?case by (simp split: list.splits)
qed

lemma tokens_skip: "whitespaceTokens (dropWhile isspace s) = whitespaceTokens s"
  by (induction s) (auto simp: whitespaceTokens_def)

lemma tokens_word:
  assumes w: "\<forall>c\<in>set w. \<not> isspace c" "w \<noteq> []" and r: "r = [] \<or> isspace (hd r)"
  shows "whitespaceTokens (w @ r) = w # whitespaceTokens r"
proof (cases r)
  case Nil
  then show ?thesis using splitFields_word[OF w(1), of "[]"] w(2) by (simp add: whitespaceTokens_def)
next
  case (Cons c cs)
  then have "isspace c" using r by simp
  then show ?thesis using splitFields_word[OF w(1), of r] w(2) Cons
    by (simp add: whitespaceTokens_def)
qed

lemma extractWords_whitespaceTokens: "extractWords s = whitespaceTokens s"
proof (induction s rule: extractWords.induct)
  case (1 s)
  let ?s1 = "dropWhile isspace s"
  show ?case
  proof (cases "?s1 = []")
    case True
    have "whitespaceTokens [] = []" by (simp add: whitespaceTokens_def)
    then have "whitespaceTokens ?s1 = []" by (simp only: True)
    then have "whitespaceTokens s = []" by (simp only: tokens_skip)
    moreover have "extractWords s = []" using True by (subst extractWords.simps) simp
    ultimately show ?thesis by simp
  next
    case False
    let ?w = "takeWhile (\<lambda>c. \<not> isspace c) ?s1" and ?r = "dropWhile (\<lambda>c. \<not> isspace c) ?s1"
    have "\<not> isspace (hd ?s1)" using False hd_dropWhile[of isspace s] by simp
    then have wne: "?w \<noteq> []" using False by (cases ?s1) auto
    have wall: "\<forall>c\<in>set ?w. \<not> isspace c" by (auto dest: set_takeWhileD)
    have r: "?r = [] \<or> isspace (hd ?r)" using hd_dropWhile[of "\<lambda>c. \<not> isspace c" ?s1] by auto
    have "whitespaceTokens ?s1 = ?w # whitespaceTokens ?r"
      using tokens_word[OF wall wne r] by simp
    moreover have "extractWords ?r = whitespaceTokens ?r" using "1.IH"[OF refl False] .
    ultimately show ?thesis using False tokens_skip[of s]
      by (subst extractWords.simps) (simp add: Let_def)
  qed
qed

lemma occursIn_sublist: "occursIn phrase body = (phrase \<noteq> [] \<and> sublist phrase body)"
proof -
  have "sublist phrase body" if "i < length body" "take (length phrase) (drop i body) = phrase" for i
  proof -
    have "drop i body = take (length phrase) (drop i body) @ drop (length phrase) (drop i body)"
      by (simp only: append_take_drop_id)
    then have "body = take i body @ take (length phrase) (drop i body) @ drop (length phrase) (drop i body)"
      using append_take_drop_id[of i body] by simp
    then have "body = take i body @ phrase @ drop (length phrase) (drop i body)" using that(2) by simp
    then show ?thesis unfolding sublist_def by blast
  qed
  moreover have "\<exists>i<length body. take (length phrase) (drop i body) = phrase"
    if "phrase \<noteq> []" "sublist phrase body"
  proof -
    from that(2) obtain ps ss where "body = ps @ phrase @ ss" unfolding sublist_def by blast
    then have "length ps < length body" "take (length phrase) (drop (length ps) body) = phrase"
      using that(1) by auto
    then show ?thesis by blast
  qed
  ultimately show ?thesis by (auto simp: occursIn_def)
qed

lemma containsPattern_correct: "containsPattern body pattern = Some (occursIn pattern body)"
  by (auto simp: containsPattern_def findPatternOccurrences_correct occursIn_def filter_empty_conv)

lemma wordLoop_count:
  "wordLoop t ws sev = sev + int (length (filter (\<lambda>w. searchAVL t (map tolower w)) ws))"
  by (induction ws arbitrary: sev) (auto simp: Let_def)

lemma phraseLoop_count:
  "phraseLoop low phrases sev =
     Some (sev + 2 * int (length (filter (\<lambda>phrase. occursIn phrase low) phrases)))"
  by (induction phrases arbitrary: sev) (auto simp: containsPattern_correct)

lemma scorePost_value:
  "scorePost t phrases rep g (author, body) =
     Some (int (length (filter (\<lambda>w. searchAVL t (map tolower w)) (extractWords body)))
           + 2 * int (length (filter (\<lambda>phrase. occursIn phrase (map tolower body)) phrases))
           + (if fst (degree g author) = 0 then 2 else 0)
           + (if (case rep author of None \<Rightarrow> 0 | Some r \<Rightarrow> r) < 5 then 1 else 0),
           fst (degree g author) = 0,
           (case rep author of None \<Rightarrow> 0 | Some r \<Rightarrow> r),
           snd (degree g author))"
  by (simp add: scorePost_def wordLoop_count phraseLoop_count Let_def split: prod.splits option.splits)

text \<open>
  Claim C1. For every post (author, content), every dictionary built from a list of words,
  every list of banned phrases, every trust graph and every reputation table, the loop
  body of \<open>main\<close> computes as severity the sum of: 1 for each whitespace-separated token
  of the content whose lower-cased form is a word of the dictionary; 2 for each phrase of
  the list that occurs in the lower-cased content; 2 if the degree of the author in the
  graph is 0; 1 if the reputation of the author, 0 when the table has none, is below 5.
  A phrase occurs in a text when it is not empty and is a substring of the text
  (\<open>occursIn\<close>, \<open>occursIn_sublist\<close>); the tokens are the non-empty fields between
  whitespace characters (\<open>whitespaceTokens\<close>). The scoring returns (no fault), with the
  bot flag, the reputation and the graph after the degree query.
\<close>

theorem severity_is_weighted_sum:
  "\<exists>t. buildDictionary dictionary = Some t \<and>
       scorePost t bannedPhrases userReputation socialGraph (author, body) =
         Some (severitySpec dictionary bannedPhrases userReputation socialGraph author body,
               fst (degree socialGraph author) = 0,
               (case userReputation author of None \<Rightarrow> 0 | Some r \<Rightarrow> r),
               snd (degree socialGraph author))"
proof -
  obtain t where t: "buildDictionary dictionary = Some t"
    "\<forall>w. searchAVL t w = (w \<in> set dictionary)"
    using buildDictionary_search by blast
  show ?thesis
    using t by (simp add: scorePost_value severitySpec_def extractWords_whitespaceTokens)
qed

lemma mainTree_built: "buildDictionary mainWords = Some mainTree"
  by code_simp

lemma scoreOnly_Some:
  "scoreOnly r = Some (s, b, rep) \<Longrightarrow> \<exists>g. r = Some (s, b, rep, g)"
  by (cases r) (auto simp: scoreOnly_def)

theorem severity_is_weighted_sum_witness:
  "buildDictionary mainWords = Some mainTree \<and>
   severitySpec mainWords mainPhrases mainReputation mainGraph ''botuser'' ''check out this link'' = 3 \<and>
   scorePost mainTree mainPhrases mainReputation mainGraph (''botuser'', ''check out this link'') =
     Some (3, True, 0, snd (degree mainGraph ''botuser'')) \<and>
   severitySpec mainWords [''free money'', ''scam''] mainReputation mainGraph
      ''bob'' ''FREE MONEY is a Scam'' = 6 \<and>
   scorePost mainTree [''free money'', ''scam''] mainReputation mainGraph
      (''bob'', ''FREE MONEY is a Scam'') = Some (6, False, 3, snd (degree mainGraph ''bob''))"
proof -
  have s1: "severitySpec mainWords mainPhrases mainReputation mainGraph ''botuser'' ''check out this link'' = 3"
    by code_simp
  have s2: "severitySpec mainWords [''free money'', ''scam''] mainReputation mainGraph
      ''bob'' ''FREE MONEY is a Scam'' = 6"
    by code_simp
  have d: "fst (degree mainGraph ''botuser'') = 0" "fst (degree mainGraph ''bob'') = 2"
    "mainReputation ''botuser'' = None" "mainReputation ''bob'' = Some 3"
    by code_simp+
  show ?thesis
    using severity_is_weighted_sum [where dictionary=mainWords and bannedPhrases=mainPhrases
        and userReputation=mainReputation and socialGraph=mainGraph
        and author="''botuser''" and body="''check out this link''"]
      severity_is_weighted_sum [where dictionary=mainWords and bannedPhrases="[''free money'', ''scam'']"
        and userReputation=mainReputation and socialGraph=mainGraph
        and author="''bob''" and body="''FREE MONEY is a Scam''"]
      s1 s2 d mainTree_built
    by simp
qed

section \<open>Correctness of the review queue\<close>

lemma parent_less: "0 < k \<Longrightarrow> (k - 1) div 2 < (k::nat)"
  by arith

lemma length_siftUp: "length (siftUp h i) = length h"
  by (induction h i rule: siftUp.induct) (subst siftUp.simps, simp add: Let_def)

lemma length_siftDown: "length (siftDown h i) = length h"
  by (induction h i rule: siftDown.induct) (subst siftDown.simps, simp add: Let_def)

lemma mset_siftUp: "i < length h \<Longrightarrow> mset (siftUp h i) = mset h"
proof (induction h i rule: siftUp.induct)
  case (1 h i)
  show ?case
  proof (cases "i = 0")
    case True
    then show ?thesis by (subst siftUp.simps) simp
  next
    case False
    let ?p = "(i - 1) div 2"
    have p: "?p < i" using False by (simp add: parent_less)
    show ?thesis
    proof (cases "fst (h ! ?p) < fst (h ! i)")
      case True
      have "mset (siftUp (h[?p := h ! i, i := h ! ?p]) ?p) = mset (h[?p := h ! i, i := h ! ?p])"
        using "1.IH"[OF False refl True] p "1.prems" by simp
      also have "\<dots> = mset h" using p "1.prems" by (simp add: mset_swap)
      finally show ?thesis using False True by (subst siftUp.simps) (simp add: Let_def)
    next
      case no: False
      then show ?thesis using False by (subst siftUp.simps) (simp add: Let_def)
    qed
  qed
qed


lemma siftUp_heap: "i < length h \<Longrightarrow> heapExceptUp h i \<Longrightarrow> heapInv (siftUp h i)"
proof (induction h i rule: siftUp.induct)
  case (1 h i)
  from "1.prems"(2) have
    A: "\<And>k. 0 < k \<Longrightarrow> k < length h \<Longrightarrow> k \<noteq> i \<Longrightarrow> fst (h ! k) \<le> fst (h ! ((k - 1) div 2))" and
    B: "\<And>k. 0 < k \<Longrightarrow> k < length h \<Longrightarrow> (k - 1) div 2 = i \<Longrightarrow> 0 < i \<Longrightarrow>
            fst (h ! k) \<le> fst (h ! ((i - 1) div 2))"
    by (auto simp: heapExceptUp_def)
  show ?case
  proof (cases "i = 0")
    case True
    then have "heapInv h" using A by (auto simp: heapInv_def)
    then show ?thesis using True by (subst siftUp.simps) simp
  next
    case False
    let ?p = "(i - 1) div 2"
    have p: "?p < i" using False by (simp add: parent_less)
    show ?thesis
    proof (cases "fst (h ! ?p) < fst (h ! i)")
      case no: False
      have "fst (h ! k) \<le> fst (h ! ((k - 1) div 2))" if "0 < k" "k < length h" for k
        using A[of k] that no by (cases "k = i") auto
      then have "heapInv h" by (simp add: heapInv_def)
      then show ?thesis using False no by (subst siftUp.simps) (simp add: Let_def)
    next
      case True
      let ?h = "h[?p := h ! i, i := h ! ?p]"
      have len: "length ?h = length h" by simp
      have ni: "?h ! i = h ! ?p" using "1.prems"(1) by simp
      have np: "?h ! ?p = h ! i" using p "1.prems"(1) by simp
      have nk: "?h ! k = h ! k" if "k \<noteq> i" "k \<noteq> ?p" for k using that by simp
      have A': "fst (?h ! k) \<le> fst (?h ! ((k - 1) div 2))"
        if k: "0 < k" "k < length h" "k \<noteq> ?p" for k
      proof (cases "k = i")
        case True
        then show ?thesis using ni np \<open>fst (h ! ?p) < fst (h ! i)\<close> by simp
      next
        case ki: False
        have hk: "?h ! k = h ! k" using nk ki k(3) by simp
        consider (a) "(k - 1) div 2 = ?p" | (b) "(k - 1) div 2 = i"
          | (c) "(k - 1) div 2 \<noteq> ?p" "(k - 1) div 2 \<noteq> i" by blast
        then show ?thesis
        proof cases
          case a
          have "fst (h ! k) \<le> fst (h ! ?p)" using A[OF k(1,2) ki] a by simp
          then show ?thesis using hk a np True by simp
        next
          case b
          have "fst (h ! k) \<le> fst (h ! ?p)" using B[OF k(1,2) b] False by simp
          then show ?thesis using hk b ni by simp
        next
          case c
          then show ?thesis using hk nk[of "(k - 1) div 2"] A[OF k(1,2) ki] by simp
        qed
      qed
      have B': "fst (?h ! k) \<le> fst (?h ! ((?p - 1) div 2))"
        if k: "0 < k" "k < length h" "(k - 1) div 2 = ?p" "0 < ?p" for k
      proof -
        have pp: "(?p - 1) div 2 < ?p" using k(4) by (rule parent_less)
        then have gp: "?h ! ((?p - 1) div 2) = h ! ((?p - 1) div 2)" using p nk by simp
        have top: "fst (h ! ?p) \<le> fst (h ! ((?p - 1) div 2))"
          using A[of ?p] k(4) p "1.prems"(1) by simp
        show ?thesis
        proof (cases "k = i")
          case True
          then show ?thesis using ni gp top by simp
        next
          case ki: False
          have "k \<noteq> ?p" using k(3,4) parent_less[of k] k(1) by auto
          then have "?h ! k = h ! k" using nk ki by simp
          moreover have "fst (h ! k) \<le> fst (h ! ?p)" using A[OF k(1,2) ki] k(3) by simp
          ultimately show ?thesis using gp top by simp
        qed
      qed
      have "heapExceptUp ?h ?p"
        unfolding heapExceptUp_def len using A' B' by blast
      moreover have "?p < length ?h" using p "1.prems"(1) by simp
      ultimately have "heapInv (siftUp ?h ?p)"
        using "1.IH"[OF False refl True] by blast
      then show ?thesis using False True by (subst siftUp.simps) (simp add: Let_def)
    qed
  qed
qed

lemma heapExceptUp_snoc: "heapInv q \<Longrightarrow> heapExceptUp (q @ [e]) (length q)"
proof -
  assume h: "heapInv q"
  have "fst ((q @ [e]) ! k) \<le> fst ((q @ [e]) ! ((k - 1) div 2))"
    if "0 < k" "k < length (q @ [e])" "k \<noteq> length q" for k
  proof -
    have k: "k < length q" using that by simp
    then have "(k - 1) div 2 < length q" using parent_less[OF that(1)] by simp
    moreover have "fst (q ! k) \<le> fst (q ! ((k - 1) div 2))"
      using h k that(1) unfolding heapInv_def by blast
    ultimately show ?thesis using k by (simp add: nth_append)
  qed
  moreover have "False" if "0 < k" "k < length (q @ [e])" "(k - 1) div 2 = length q" for k
    using that parent_less[OF that(1)] by simp
  ultimately show ?thesis unfolding heapExceptUp_def by blast
qed

lemma push_heap: "heapInv q \<Longrightarrow> heapInv (push q e)"
  unfolding push_def by (rule siftUp_heap) (simp_all add: heapExceptUp_snoc)

lemma mset_push: "mset (push q e) = add_mset e (mset q)"
  by (simp add: push_def mset_siftUp)

lemma child_cases: "0 < k \<Longrightarrow> (k - 1) div 2 = i \<Longrightarrow> k = 2 * i + 1 \<or> k = 2 * i + (2::nat)"
  by arith

lemma mset_siftDown: "mset (siftDown h i) = mset h"
proof (induction h i rule: siftDown.induct)
  case (1 h i)
  define l where "l = 2 * i + 1"
  define r where "r = 2 * i + 2"
  define big where "big = (if l < length h \<and> fst (h ! i) < fst (h ! l) then l else i)"
  define big' where "big' = (if r < length h \<and> fst (h ! big) < fst (h ! r) then r else big)"
  have eq: "siftDown h i = (if big' = i then h else siftDown (h[i := h ! big', big' := h ! i]) big')"
    by (subst siftDown.simps) (simp only: Let_def l_def r_def big_def big'_def)
  show ?case
  proof (cases "big' = i")
    case True
    then show ?thesis by (simp add: eq)
  next
    case False
    have b: "big' < length h" "i < big'"
      using False by (auto simp: big'_def big_def l_def r_def split: if_splits)
    have "mset (siftDown (h[i := h ! big', big' := h ! i]) big') = mset (h[i := h ! big', big' := h ! i])"
      using "1.IH"[OF l_def r_def big_def big'_def False] .
    also have "\<dots> = mset h" using b by (simp add: mset_swap)
    finally show ?thesis using False by (simp add: eq)
  qed
qed

lemma siftDown_heap: "heapExceptDown h i \<Longrightarrow> heapInv (siftDown h i)"
proof (induction h i rule: siftDown.induct)
  case (1 h i)
  define l where "l = 2 * i + 1"
  define r where "r = 2 * i + 2"
  define big where "big = (if l < length h \<and> fst (h ! i) < fst (h ! l) then l else i)"
  define big' where "big' = (if r < length h \<and> fst (h ! big) < fst (h ! r) then r else big)"
  have eq: "siftDown h i = (if big' = i then h else siftDown (h[i := h ! big', big' := h ! i]) big')"
    by (subst siftDown.simps) (simp only: Let_def l_def r_def big_def big'_def)
  from "1.prems" have
    A: "\<And>k. 0 < k \<Longrightarrow> k < length h \<Longrightarrow> (k - 1) div 2 \<noteq> i \<Longrightarrow>
            fst (h ! k) \<le> fst (h ! ((k - 1) div 2))" and
    B: "\<And>k. 0 < k \<Longrightarrow> k < length h \<Longrightarrow> (k - 1) div 2 = i \<Longrightarrow> 0 < i \<Longrightarrow>
            fst (h ! k) \<le> fst (h ! ((i - 1) div 2))"
    by (auto simp: heapExceptDown_def)
  have child: "k = l \<or> k = r" if "0 < k" "(k - 1) div 2 = i" for k
    using child_cases[OF that] by (simp add: l_def r_def)
  have dom: "fst (h ! k) \<le> fst (h ! big')" if "0 < k" "k < length h" "(k - 1) div 2 = i" for k
    using child[OF that(1,3)] that(2) by (auto simp: big'_def big_def)
  have self: "fst (h ! i) \<le> fst (h ! big')"
    by (auto simp: big'_def big_def)
  show ?case
  proof (cases "big' = i")
    case True
    have "fst (h ! k) \<le> fst (h ! ((k - 1) div 2))" if "0 < k" "k < length h" for k
    proof (cases "(k - 1) div 2 = i")
      case eq: True
      then show ?thesis using dom[OF that eq] True by simp
    next
      case False
      then show ?thesis using A[OF that] by simp
    qed
    then have "heapInv h" by (simp add: heapInv_def)
    then show ?thesis using True by (simp add: eq)
  next
    case False
    have b: "big' < length h" "i < big'" "(big' - 1) div 2 = i" "fst (h ! i) < fst (h ! big')"
      using False by (auto simp: big'_def big_def l_def r_def split: if_splits)
    let ?h = "h[i := h ! big', big' := h ! i]"
    have len: "length ?h = length h" by simp
    have nb: "?h ! big' = h ! i" using b by simp
    have ni: "?h ! i = h ! big'" using b by simp
    have nk: "?h ! k = h ! k" if "k \<noteq> i" "k \<noteq> big'" for k using that by simp
    have A': "fst (?h ! k) \<le> fst (?h ! ((k - 1) div 2))"
      if k: "0 < k" "k < length h" "(k - 1) div 2 \<noteq> big'" for k
    proof -
      consider (kb) "k = big'" | (ki) "k = i" | (ko) "k \<noteq> big'" "k \<noteq> i" by blast
      then show ?thesis
      proof cases
        case kb
        then show ?thesis using nb ni b by simp
      next
        case ki
        then have i0: "0 < i" using k(1) by simp
        have pi: "(i - 1) div 2 < i" using i0 by (rule parent_less)
        then have "?h ! ((i - 1) div 2) = h ! ((i - 1) div 2)" using nk b(2) by simp
        moreover have "fst (h ! big') \<le> fst (h ! ((i - 1) div 2))"
          using B[of big'] b i0 by simp
        ultimately show ?thesis using ki ni by simp
      next
        case ko
        then have hk: "?h ! k = h ! k" using nk by simp
        show ?thesis
        proof (cases "(k - 1) div 2 = i")
          case True
          then show ?thesis using hk ni dom[OF k(1,2) True] by simp
        next
          case False
          then show ?thesis using hk nk[of "(k - 1) div 2"] k(3) A[OF k(1,2) False] by simp
        qed
      qed
    qed
    have B': "fst (?h ! k) \<le> fst (?h ! ((big' - 1) div 2))"
      if k: "0 < k" "k < length h" "(k - 1) div 2 = big'" for k
    proof -
      have "big' < k" using parent_less[OF k(1)] k(3) by simp
      then have "k \<noteq> i" "k \<noteq> big'" using b(2) by simp_all
      then have "?h ! k = h ! k" using nk by simp
      moreover have "fst (h ! k) \<le> fst (h ! big')" using A[OF k(1,2)] k(3) b(2) by simp
      ultimately show ?thesis using b(3) ni by simp
    qed
    have "heapExceptDown ?h big'"
      unfolding heapExceptDown_def len using A' B' by blast
    then have "heapInv (siftDown ?h big')"
      using "1.IH"[OF l_def r_def big_def big'_def False] by blast
    then show ?thesis using False by (simp add: eq)
  qed
qed

lemma heap_root_max: "heapInv h \<Longrightarrow> k < length h \<Longrightarrow> fst (h ! k) \<le> fst (h ! 0)"
proof (induction k rule: less_induct)
  case (less k)
  show ?case
  proof (cases "k = 0")
    case True
    then show ?thesis by simp
  next
    case False
    then have p: "(k - 1) div 2 < k" by (simp add: parent_less)
    have "0 < k" using False by simp
    then have "fst (h ! k) \<le> fst (h ! ((k - 1) div 2))"
      using less.prems unfolding heapInv_def by blast
    also have "\<dots> \<le> fst (h ! 0)" using less.IH[OF p less.prems(1)] p less.prems(2) by simp
    finally show ?thesis .
  qed
qed

lemma top_max:
  assumes "heapInv q" "q \<noteq> []"
  shows "\<exists>e. top q = Some e \<and> e \<in> set q \<and> (\<forall>x\<in>set q. fst x \<le> fst e)"
proof -
  obtain e q' where q: "q = e # q'" using assms(2) by (auto simp: neq_Nil_conv)
  have 0: "q ! 0 = e" unfolding q by simp
  have "fst x \<le> fst e" if "x \<in> set q" for x
  proof -
    from that obtain k where k: "k < length q" "q ! k = x" unfolding in_set_conv_nth by blast
    have "fst (q ! k) \<le> fst (q ! 0)" using assms(1) k(1) by (rule heap_root_max)
    then show ?thesis unfolding k(2) 0 .
  qed
  moreover have "top q = Some e" "e \<in> set q" unfolding q by simp_all
  ultimately show ?thesis by blast
qed

lemma pop_heap:
  assumes "heapInv q" "q \<noteq> []"
  shows "\<exists>q'. pop q = Some q' \<and> heapInv q' \<and> add_mset (hd q) (mset q') = mset q"
proof -
  let ?h = "butlast (q[0 := last q])"
  have len: "length ?h = length q - 1" by simp
  have nk: "?h ! k = q ! k" if "0 < k" "k < length ?h" for k
    using that by (simp add: nth_butlast)
  have "fst (?h ! k) \<le> fst (?h ! ((k - 1) div 2))"
    if k: "0 < k" "k < length ?h" "(k - 1) div 2 \<noteq> 0" for k
  proof -
    have "(k - 1) div 2 < k" using k(1) by (rule parent_less)
    then have "?h ! ((k - 1) div 2) = q ! ((k - 1) div 2)" using nk k by simp
    moreover have "k < length q" using k(2) by simp
    then have "fst (q ! k) \<le> fst (q ! ((k - 1) div 2))"
      using assms(1) k(1) unfolding heapInv_def by blast
    ultimately show ?thesis using nk[OF k(1,2)] by simp
  qed
  then have "heapExceptDown ?h 0" unfolding heapExceptDown_def by blast
  then have h: "heapInv (siftDown ?h 0)" by (rule siftDown_heap)
  obtain e r where q: "q = e # r" using assms(2) by (auto simp: neq_Nil_conv)
  have m: "add_mset (hd q) (mset ?h) = mset q"
  proof (cases "r = []")
    case True
    then show ?thesis using q by simp
  next
    case False
    then have "q[0 := last q] = last r # r" using q by simp
    then have "?h = last r # butlast r" using False by simp
    moreover have "butlast r @ [last r] = r" using False by (rule append_butlast_last_id)
    then have "mset (butlast r @ [last r]) = mset r" by (rule arg_cong)
    then have "add_mset (last r) (mset (butlast r)) = mset r" by simp
    ultimately show ?thesis using q by simp
  qed
  show ?thesis using h m assms(2) by (simp add: pop_def mset_siftDown)
qed

lemma drain_Nil: "drain [] = Some []"
  by (subst drain.simps) simp

lemma drain_step:
  assumes "top q = Some e" "pop q = Some q'" "drain q' = Some rest"
  shows "drain q = Some (snd e # rest)"
proof -
  have "q \<noteq> []" using assms(1) by (cases q) auto
  then show ?thesis using assms by (subst drain.simps) simp
qed

lemma drain_sorted:
  "heapInv q \<Longrightarrow>
   \<exists>out. drain q = Some (map snd out) \<and> mset out = mset q \<and> sorted_wrt (\<lambda>a b. fst b \<le> fst a) out"
proof (induction "length q" arbitrary: q rule: less_induct)
  case less
  show ?case
  proof (cases "q = []")
    case True
    have "drain q = Some (map snd [])" unfolding True by (simp add: drain_Nil)
    moreover have "mset [] = mset q" unfolding True by simp
    moreover have "sorted_wrt (\<lambda>a b. fst b \<le> fst (a :: int \<times> FlaggedPost)) []" by simp
    ultimately show ?thesis by blast
  next
    case False
    obtain e where e: "top q = Some e" "e \<in> set q" "\<forall>x\<in>set q. fst x \<le> fst e"
      using top_max[OF less.prems False] by blast
    have hd: "hd q = e" using e(1) by (cases q) auto
    obtain q' where q': "pop q = Some q'" "heapInv q'" "add_mset (hd q) (mset q') = mset q"
      using pop_heap[OF less.prems False] by blast
    have "size (mset q) = Suc (size (mset q'))" unfolding q'(3)[symmetric] by simp
    then have "length q' < length q" by simp
    from less.hyps[OF this q'(2)] obtain out where
      out: "drain q' = Some (map snd out)" "mset out = mset q'"
        "sorted_wrt (\<lambda>a b. fst b \<le> fst a) out"
      by blast
    have 1: "drain q = Some (map snd (e # out))"
      using drain_step[OF e(1) q'(1) out(1)] by simp
    have 2: "mset (e # out) = mset q" using out(2) q'(3) hd by simp
    have "set out \<subseteq> set q"
    proof
      fix x assume "x \<in> set out"
      then have "x \<in># mset out" by simp
      then have "x \<in># mset q" unfolding out(2) q'(3)[symmetric] by simp
      then show "x \<in> set q" by simp
    qed
    then have "\<forall>x\<in>set out. fst x \<le> fst e" using e(3) by blast
    then have 3: "sorted_wrt (\<lambda>a b. fst b \<le> fst a) (e # out)" using out(3) by simp
    show ?thesis using 1 2 3 by blast
  qed
qed

lemma heapInv_Nil: "heapInv []"
  by (simp add: heapInv_def)

lemma foldl_push_heap: "heapInv q \<Longrightarrow> heapInv (foldl push q es) \<and> mset (foldl push q es) = mset q + mset es"
proof (induction es arbitrary: q)
  case Nil
  then show ?case by simp
next
  case (Cons e es)
  have "heapInv (push q e)" using Cons.prems by (rule push_heap)
  from Cons.IH[OF this] show ?case by (simp add: mset_push)
qed

lemma runQueueCalls_heap: "heapInv q \<Longrightarrow> runQueueCalls q cs = Some q' \<Longrightarrow> heapInv q'"
proof (induction cs arbitrary: q)
  case Nil
  then show ?case by simp
next
  case (Cons c cs)
  from Cons.prems(2) obtain q1 where q1: "runQueueCall q c = Some q1" "runQueueCalls q1 cs = Some q'"
    by (auto split: bind_splits)
  have "heapInv q1"
  proof (cases c)
    case (Push e)
    then have "q1 = push q e" using q1(1) by simp
    then show ?thesis using push_heap[OF Cons.prems(1), of e] by (simp only:)
  next
    case Pop
    then have p: "pop q = Some q1" using q1(1) by simp
    then have "q \<noteq> []" by (auto simp: pop_def)
    from pop_heap[OF Cons.prems(1) this] p show ?thesis by auto
  qed
  from Cons.IH[OF this q1(2)] show ?case .
qed

text \<open>
  Claim C7. For every list of (severity, post) entries pushed, in any order, into the empty
  review queue, draining the queue returns the posts of exactly the pushed entries, in an
  order in which the severity never increases: no entry comes after an entry of smaller
  severity, so an entry of severity 3 comes before every entry of severity 1 or 2. In every
  state that the queue reaches by pushes and pops and in which it is not empty, \<open>top\<close> is
  an entry whose severity is the maximum of the severities in the queue, and \<open>pop\<close>
  removes that entry.
\<close>

theorem review_queue_order:
  "(\<exists>out. drain (foldl push [] es) = Some (map snd out) \<and> mset out = mset es \<and>
          sorted_wrt (\<lambda>a b. fst b \<le> fst a) out \<and>
          (\<forall>i j. i < j \<and> j < length out \<longrightarrow> fst (out ! j) \<le> fst (out ! i))) \<and>
   (runQueueCalls [] cs = Some q \<and> q \<noteq> [] \<longrightarrow>
      (\<exists>e q'. top q = Some e \<and> e \<in> set q \<and> (\<forall>x\<in>set q. fst x \<le> fst e) \<and>
              pop q = Some q' \<and> add_mset e (mset q') = mset q))"
proof (rule conjI)
  have h: "heapInv (foldl push [] es)" "mset (foldl push [] es) = mset es"
    using foldl_push_heap[OF heapInv_Nil, of es] by simp_all
  from drain_sorted[OF h(1)] obtain out where
    out: "drain (foldl push [] es) = Some (map snd out)" "mset out = mset (foldl push [] es)"
      "sorted_wrt (\<lambda>a b. fst b \<le> fst a) out"
    by blast
  have "\<forall>i j. i < j \<and> j < length out \<longrightarrow> fst (out ! j) \<le> fst (out ! i)"
    using out(3) unfolding sorted_wrt_iff_nth_less by blast
  then show "\<exists>out. drain (foldl push [] es) = Some (map snd out) \<and> mset out = mset es \<and>
          sorted_wrt (\<lambda>a b. fst b \<le> fst a) out \<and>
          (\<forall>i j. i < j \<and> j < length out \<longrightarrow> fst (out ! j) \<le> fst (out ! i))"
    using out h(2) by metis
next
  show "runQueueCalls [] cs = Some q \<and> q \<noteq> [] \<longrightarrow>
      (\<exists>e q'. top q = Some e \<and> e \<in> set q \<and> (\<forall>x\<in>set q. fst x \<le> fst e) \<and>
              pop q = Some q' \<and> add_mset e (mset q') = mset q)"
  proof
    assume a: "runQueueCalls [] cs = Some q \<and> q \<noteq> []"
    then have h: "heapInv q" using runQueueCalls_heap[OF heapInv_Nil] by blast
    from a have ne: "q \<noteq> []" by blast
    obtain e where e: "top q = Some e" "e \<in> set q" "\<forall>x\<in>set q. fst x \<le> fst e"
      using top_max[OF h ne] by blast
    have hd: "hd q = e" using e(1) by (cases q) auto
    obtain q' where q': "pop q = Some q'" "add_mset (hd q) (mset q') = mset q"
      using pop_heap[OF h ne] by blast
    show "\<exists>e q'. top q = Some e \<and> e \<in> set q \<and> (\<forall>x\<in>set q. fst x \<le> fst e) \<and>
              pop q = Some q' \<and> add_mset e (mset q') = mset q"
      using e q' unfolding hd by blast
  qed
qed

lemma main_report:
  "moderate mainWords mainReputation mainEdges mainPhrases mainPosts =
     Some [postBotuser, postBob, postCharlie]"
  by code_simp

theorem review_queue_order_witness:
  "drain (foldl push [] [(2, postBob), (3, postBotuser), (1, postCharlie)]) =
     Some (map snd [(3, postBotuser), (2, postBob), (1, postCharlie)]) \<and>
   runQueueCalls [] [Push (2, postBob), Push (3, postBotuser), Push (1, postCharlie), Pop] =
     Some [(2, postBob), (1, postCharlie)] \<and>
   [(2, postBob), (1, postCharlie)] \<noteq> [] \<and>
   top [(2, postBob), (1, postCharlie)] = Some (2, postBob) \<and>
   pop [(2, postBob), (1, postCharlie)] = Some [(1, postCharlie)]"
proof -
  have d: "drain (foldl push [] [(2, postBob), (3, postBotuser), (1, postCharlie)]) =
     Some (map snd [(3, postBotuser), (2, postBob), (1, postCharlie)])"
    by code_simp
  have r: "runQueueCalls [] [Push (2, postBob), Push (3, postBotuser), Push (1, postCharlie), Pop] =
     Some [(2, postBob), (1, postCharlie)]"
    by code_simp
  have n: "[(2, postBob), (1, postCharlie)] \<noteq> []" by simp
  have t: "top [(2, postBob), (1, postCharlie)] = Some (2, postBob)" by simp
  from review_queue_order [of "[(2, postBob), (3, postBotuser), (1, postCharlie)]"
      "[Push (2, postBob), Push (3, postBotuser), Push (1, postCharlie), Pop]"
      "[(2, postBob), (1, postCharlie)]"] r n
  obtain e q' where e: "top [(2, postBob), (1, postCharlie)] = Some e"
    "pop [(2, postBob), (1, postCharlie)] = Some q'"
    "add_mset e (mset q') = mset [(2, postBob), (1, postCharlie)]"
    by blast
  have "e = (2, postBob)" using e(1) t by simp
  then have "mset q' = mset [(1, postCharlie)]" using e(3) by simp
  then have "q' = [(1, postCharlie)]" by (metis mset_single_iff_right mset.simps(1,2))
  then show ?thesis using d r n t e(2) by blast
qed

lemma set_push: "set (push q e) = insert e (set q)"
proof -
  have "set_mset (mset (push q e)) = set_mset (add_mset e (mset q))" by (simp only: mset_push)
  then show ?thesis by simp
qed

lemma queueOk_push:
  assumes "queueOk q" "0 < fst e" "severity (snd e) = fst e" "priority (snd e) = getPriority (fst e)"
  shows "queueOk (push q e)"
  unfolding queueOk_def set_push using assms push_heap[of q e] unfolding queueOk_def by blast

lemma analysePost_total:
  "\<exists>g' q'. analysePost t phrases rep (g, q) post = Some (g', q') \<and> (queueOk q \<longrightarrow> queueOk q')"
proof -
  obtain author body where post: "post = (author, body)" by (cases post)
  obtain sev b r g' where sc: "scorePost t phrases rep g (author, body) = Some (sev, b, r, g')"
    using scorePost_value[of t phrases rep g author body] by blast
  show ?thesis
  proof (cases "0 < sev")
    case False
    then have "analysePost t phrases rep (g, q) post = Some (g', q)"
      using sc post by (simp add: analysePost_def)
    then show ?thesis by blast
  next
    case True
    let ?fp = "\<lparr>username = author, content = body, severity = sev,
                 priority = getPriority sev, isBot = b, reputation = r\<rparr>"
    have a: "analysePost t phrases rep (g, q) post = Some (g', push q (sev, ?fp))"
      using sc post True by (simp add: analysePost_def)
    have "queueOk (push q (sev, ?fp))" if "queueOk q"
      by (rule queueOk_push[OF that]) (use True in simp_all)
    then show ?thesis using a by blast
  qed
qed

lemma analysePosts_total:
  "queueOk q \<Longrightarrow> \<exists>g' q'. analysePosts t phrases rep (g, q) posts = Some (g', q') \<and> queueOk q'"
proof (induction posts arbitrary: g q)
  case Nil
  then show ?case by simp
next
  case (Cons post posts)
  obtain g1 q1 where 1: "analysePost t phrases rep (g, q) post = Some (g1, q1)" "queueOk q1"
    using analysePost_total[of t phrases rep g q post] Cons.prems by blast
  from Cons.IH[OF 1(2), of g1] obtain g' q' where
    "analysePosts t phrases rep (g1, q1) posts = Some (g', q')" "queueOk q'" by blast
  then show ?case using 1(1) by auto
qed

lemma drain_report:
  assumes "queueOk q"
  shows "\<exists>report. drain q = Some report \<and>
           (\<forall>fp\<in>set report. 0 < severity fp \<and> priority fp = getPriority (severity fp)) \<and>
           sorted_wrt (\<lambda>a b. severity b \<le> severity a) report"
proof -
  from assms have h: "heapInv q"
    and ok: "\<And>e. e \<in> set q \<Longrightarrow> 0 < fst e \<and> severity (snd e) = fst e \<and>
               priority (snd e) = getPriority (fst e)"
    unfolding queueOk_def by blast+
  obtain out where out: "drain q = Some (map snd out)" "mset out = mset q"
    "sorted_wrt (\<lambda>a b. fst b \<le> fst a) out"
    using drain_sorted[OF h] by blast
  have so: "set out = set q" using out(2) by (rule mset_eq_setD)
  have 1: "0 < severity fp \<and> priority fp = getPriority (severity fp)" if "fp \<in> set (map snd out)" for fp
  proof -
    from that obtain e where e: "e \<in> set out" "fp = snd e" by auto
    then show ?thesis using ok[of e] so by simp
  qed
  have "sorted_wrt (\<lambda>a b. severity (snd b) \<le> severity (snd a)) out"
    by (rule sorted_wrt_mono_rel[OF _ out(3)]) (use ok so in auto)
  then have 2: "sorted_wrt (\<lambda>a b. severity b \<le> severity a) (map snd out)"
    by (simp add: sorted_wrt_map)
  show ?thesis using out(1) 1 2 by blast
qed

lemma moderate_report:
  "\<exists>report. moderate ws rep edges phrases posts = Some report \<and>
     (\<forall>fp\<in>set report. 0 < severity fp \<and> priority fp = getPriority (severity fp)) \<and>
     sorted_wrt (\<lambda>a b. severity b \<le> severity a) report"
proof -
  obtain t where t: "buildDictionary ws = Some t" using buildDictionary_dictInv by blast
  have "queueOk []" by (simp add: queueOk_def heapInv_Nil)
  then obtain g' q' where a: "analysePosts t phrases rep
      (foldl (\<lambda>g (u, v). addEdge g u v) emptyGraph edges, []) posts = Some (g', q')" "queueOk q'"
    using analysePosts_total by blast
  obtain report where r: "drain q' = Some report"
    "\<forall>fp\<in>set report. 0 < severity fp \<and> priority fp = getPriority (severity fp)"
    "sorted_wrt (\<lambda>a b. severity b \<le> severity a) report"
    using drain_report[OF a(2)] by blast
  have "moderate ws rep edges phrases posts = Some report"
    using t a(1) r(1) by (simp add: moderate_def)
  then show ?thesis using r by blast
qed

section \<open>Priority tiers and flagging\<close>

lemma analysePost_flags:
  "(scorePost bannedWords bannedPhrases userReputation (fst st) post = Some (0, b, rep, g') \<longrightarrow>
      analysePost bannedWords bannedPhrases userReputation st post = Some (g', snd st)) \<and>
   (scorePost bannedWords bannedPhrases userReputation (fst st) post = Some (s, b, rep, g') \<and> 0 < s \<longrightarrow>
      analysePost bannedWords bannedPhrases userReputation st post =
        Some (g', push (snd st)
                    (s, \<lparr>username = fst post, content = snd post, severity = s,
                         priority = getPriority s, isBot = b, reputation = rep\<rparr>)))"
  by (simp add: analysePost_def)

text \<open>
  Claim C6. For every integer severity \<open>s\<close>, \<open>getPriority s\<close> is HIGH when \<open>s \<ge> 6\<close>,
  MEDIUM when \<open>3 \<le> s \<le> 5\<close> and LOW when \<open>1 \<le> s \<le> 2\<close>. A post whose severity is
  0 is not flagged: the loop body of \<open>main\<close> leaves the review queue, and so the report
  drained from it, as it was; a post of positive severity is pushed with its severity and
  the priority of that severity. So the report that \<open>main\<close> prints holds only posts of
  positive severity, each with the priority of its severity.
\<close>

theorem getPriority_tiers:
  "(6 \<le> s \<longrightarrow> getPriority s = ''HIGH'') \<and>
   (3 \<le> s \<and> s \<le> 5 \<longrightarrow> getPriority s = ''MEDIUM'') \<and>
   (1 \<le> s \<and> s \<le> 2 \<longrightarrow> getPriority s = ''LOW'') \<and>
   (scorePost bannedWords bannedPhrases userReputation (fst st) post = Some (0, b, rep, g') \<longrightarrow>
      analysePost bannedWords bannedPhrases userReputation st post = Some (g', snd st)) \<and>
   (scorePost bannedWords bannedPhrases userReputation (fst st) post = Some (s, b, rep, g') \<and> 0 < s \<longrightarrow>
      analysePost bannedWords bannedPhrases userReputation st post =
        Some (g', push (snd st)
                    (s, \<lparr>username = fst post, content = snd post, severity = s,
                         priority = getPriority s, isBot = b, reputation = rep\<rparr>))) \<and>
   (\<exists>report. moderate ws userReputation edges bannedPhrases posts = Some report \<and>
      (\<forall>fp\<in>set report. 0 < severity fp \<and> priority fp = getPriority (severity fp)))"
proof -
  have 1: "6 \<le> s \<longrightarrow> getPriority s = ''HIGH''"
    and 2: "3 \<le> s \<and> s \<le> 5 \<longrightarrow> getPriority s = ''MEDIUM''"
    and 3: "1 \<le> s \<and> s \<le> 2 \<longrightarrow> getPriority s = ''LOW''"
    by (simp_all add: getPriority_def)
  show ?thesis
    using 1 2 3 analysePost_flags[of bannedWords bannedPhrases userReputation st post b rep g' s]
      moderate_report[of ws userReputation edges bannedPhrases posts]
    by blast
qed

theorem getPriority_tiers_witness:
  "(6::int) \<le> 7 \<and> getPriority 7 = ''HIGH'' \<and>
   (3::int) \<le> 4 \<and> (4::int) \<le> 5 \<and> getPriority 4 = ''MEDIUM'' \<and>
   (1::int) \<le> 2 \<and> (2::int) \<le> 2 \<and> getPriority 2 = ''LOW'' \<and>
   (\<exists>g'. scorePost mainTree mainPhrases mainReputation mainGraph
            (''alice'', ''this is a great product'') = Some (0, False, 10, g') \<and>
         analysePost mainTree mainPhrases mainReputation (mainGraph, [])
            (''alice'', ''this is a great product'') = Some (g', [])) \<and>
   (\<exists>g'. scorePost mainTree mainPhrases mainReputation mainGraph
            (''bob'', ''this is a scam'') = Some (2, False, 3, g') \<and>
         (0::int) < 2 \<and>
         analysePost mainTree mainPhrases mainReputation (mainGraph, [])
            (''bob'', ''this is a scam'') =
           Some (g', push [] (2, \<lparr>username = ''bob'', content = ''this is a scam'', severity = 2,
                                   priority = ''LOW'', isBot = False, reputation = 3\<rparr>))) \<and>
   moderate mainWords mainReputation mainEdges mainPhrases mainPosts =
     Some [postBotuser, postBob, postCharlie] \<and>
   0 < severity postBotuser \<and> priority postBotuser = getPriority (severity postBotuser) \<and>
   0 < severity postBob \<and> priority postBob = getPriority (severity postBob) \<and>
   0 < severity postCharlie \<and> priority postCharlie = getPriority (severity postCharlie)"
proof -
  have a: "scoreOnly (scorePost mainTree mainPhrases mainReputation mainGraph
             (''alice'', ''this is a great product'')) = Some (0, False, 10)"
    by code_simp
  have b: "scoreOnly (scorePost mainTree mainPhrases mainReputation mainGraph
             (''bob'', ''this is a scam'')) = Some (2, False, 3)"
    by code_simp
  obtain ga where ga: "scorePost mainTree mainPhrases mainReputation mainGraph
             (''alice'', ''this is a great product'') = Some (0, False, 10, ga)"
    using scoreOnly_Some[OF a] by blast
  obtain gb where gb: "scorePost mainTree mainPhrases mainReputation mainGraph
             (''bob'', ''this is a scam'') = Some (2, False, 3, gb)"
    using scoreOnly_Some[OF b] by blast
  note A = getPriority_tiers [where s=7 and bannedWords=mainTree and bannedPhrases=mainPhrases
      and userReputation=mainReputation and st="(mainGraph, [])"
      and post="(''alice'', ''this is a great product'')" and b=False and rep=10 and g'=ga
      and ws=mainWords and edges=mainEdges and posts=mainPosts]
  note M = getPriority_tiers [where s=4 and bannedWords=mainTree and bannedPhrases=mainPhrases
      and userReputation=mainReputation and st="(mainGraph, [])"
      and post="(''alice'', ''this is a great product'')" and b=False and rep=10 and g'=ga
      and ws=mainWords and edges=mainEdges and posts=mainPosts]
  note B = getPriority_tiers [where s=2 and bannedWords=mainTree and bannedPhrases=mainPhrases
      and userReputation=mainReputation and st="(mainGraph, [])"
      and post="(''bob'', ''this is a scam'')" and b=False and rep=3 and g'=gb
      and ws=mainWords and edges=mainEdges and posts=mainPosts]
  have h: "getPriority 7 = ''HIGH''" using A[THEN conjunct1] by simp
  have m: "getPriority 4 = ''MEDIUM''" using M[THEN conjunct2, THEN conjunct1] by simp
  have l: "getPriority 2 = ''LOW''"
    using B[THEN conjunct2, THEN conjunct2, THEN conjunct1] by simp
  have 1: "analysePost mainTree mainPhrases mainReputation (mainGraph, [])
            (''alice'', ''this is a great product'') = Some (ga, [])"
    using A[THEN conjunct2, THEN conjunct2, THEN conjunct2, THEN conjunct1] ga by simp
  have 3: "analysePost mainTree mainPhrases mainReputation (mainGraph, [])
            (''bob'', ''this is a scam'') =
           Some (gb, push [] (2, \<lparr>username = ''bob'', content = ''this is a scam'', severity = 2,
                                   priority = ''LOW'', isBot = False, reputation = 3\<rparr>))"
    using B[THEN conjunct2, THEN conjunct2, THEN conjunct2, THEN conjunct2, THEN conjunct1] gb l
    by simp
  obtain report where r:
    "moderate mainWords mainReputation mainEdges mainPhrases mainPosts = Some report"
    "\<forall>fp\<in>set report. 0 < severity fp \<and> priority fp = getPriority (severity fp)"
    using A[THEN conjunct2, THEN conjunct2, THEN conjunct2, THEN conjunct2, THEN conjunct2]
    by blast
  have "report = [postBotuser, postBob, postCharlie]" using r(1) main_report by simp
  then have "\<forall>fp\<in>set [postBotuser, postBob, postCharlie].
      0 < severity fp \<and> priority fp = getPriority (severity fp)"
    using r(2) by (simp only:)
  then have R:
    "0 < severity postBotuser \<and> priority postBotuser = getPriority (severity postBotuser)"
    "0 < severity postBob \<and> priority postBob = getPriority (severity postBob)"
    "0 < severity postCharlie \<and> priority postCharlie = getPriority (severity postCharlie)"
    by (simp_all only: list.set ball_simps insert_iff simp_thms)
  have E1: "\<exists>g'. scorePost mainTree mainPhrases mainReputation mainGraph
            (''alice'', ''this is a great product'') = Some (0, False, 10, g') \<and>
         analysePost mainTree mainPhrases mainReputation (mainGraph, [])
            (''alice'', ''this is a great product'') = Some (g', [])"
    using ga 1 by blast
  have "(0::int) < 2" by simp
  then have E2: "\<exists>g'. scorePost mainTree mainPhrases mainReputation mainGraph
            (''bob'', ''this is a scam'') = Some (2, False, 3, g') \<and>
         (0::int) < 2 \<and>
         analysePost mainTree mainPhrases mainReputation (mainGraph, [])
            (''bob'', ''this is a scam'') =
           Some (g', push [] (2, \<lparr>username = ''bob'', content = ''this is a scam'', severity = 2,
                                   priority = ''LOW'', isBot = False, reputation = 3\<rparr>))"
    using gb 3 by blast
  have N: "(6::int) \<le> 7" "(3::int) \<le> 4" "(4::int) \<le> 5" "(1::int) \<le> 2" "(2::int) \<le> 2"
    by simp_all
  show ?thesis using N h m l E1 E2 main_report R by blast
qed

end
